theory Spec2Isabelle
  imports Main "HOL-Library.Word" "HOL-Library.Monad_Syntax"
begin

unbundle bit_operations_syntax

section \<open>Package regexp: anchored matching\<close>

text \<open>
  The six classifier patterns of \<^verbatim>\<open>main.go\<close> are all of the shape \<^verbatim>\<open>^...$\<close> and are only
  asked \<^verbatim>\<open>Match\<close>, so a pattern is a regular expression over bytes and \<^verbatim>\<open>Match\<close> says whether
  the whole input belongs to it. Without the \<^verbatim>\<open>m\<close> flag Go's \<^verbatim>\<open>$\<close> is the end of the text only.
  A character class lists its bytes; a byte above 0x7f is in none of the classes used here.
\<close>

datatype rexp =
    Zero
  | One
  | Cls "char list"
  | Alt rexp rexp
  | Seq rexp rexp
  | Star rexp

fun nullable :: "rexp \<Rightarrow> bool" where
  "nullable Zero = False"
| "nullable One = True"
| "nullable (Cls cs) = False"
| "nullable (Alt r s) = (nullable r \<or> nullable s)"
| "nullable (Seq r s) = (nullable r \<and> nullable s)"
| "nullable (Star r) = True"

fun deriv :: "char \<Rightarrow> rexp \<Rightarrow> rexp" where
  "deriv c Zero = Zero"
| "deriv c One = Zero"
| "deriv c (Cls cs) = (if c \<in> set cs then One else Zero)"
| "deriv c (Alt r s) = Alt (deriv c r) (deriv c s)"
| "deriv c (Seq r s) =
     (if nullable r then Alt (Seq (deriv c r) s) (deriv c s) else Seq (deriv c r) s)"
| "deriv c (Star r) = Seq (deriv c r) (Star r)"

fun Match :: "rexp \<Rightarrow> string \<Rightarrow> bool" where
  "Match r [] = nullable r"
| "Match r (c # cs) = Match (deriv c r) cs"

text \<open>The postfix operators of the pattern syntax: \<^verbatim>\<open>x?\<close>, \<^verbatim>\<open>x+\<close>, \<^verbatim>\<open>x{1,3}\<close>, \<^verbatim>\<open>x{2,}\<close>, \<^verbatim>\<open>x{3,}\<close>.\<close>

definition Opt :: "rexp \<Rightarrow> rexp" where
  "Opt r = Alt r One"

definition Plus :: "rexp \<Rightarrow> rexp" where
  "Plus r = Seq r (Star r)"

definition Rep1to3 :: "rexp \<Rightarrow> rexp" where
  "Rep1to3 r = Seq r (Opt (Seq r (Opt r)))"

definition Rep2up :: "rexp \<Rightarrow> rexp" where
  "Rep2up r = Seq r (Seq r (Star r))"

definition Rep3up :: "rexp \<Rightarrow> rexp" where
  "Rep3up r = Seq r (Seq r (Seq r (Star r)))"

text \<open>\<^verbatim>\<open>\s\<close> is \<^verbatim>\<open>[\t\n\f\r ]\<close> in Go's syntax.\<close>

definition space_class :: "char list" where
  "space_class = [CHR 0x09, CHR 0x0A, CHR 0x0C, CHR 0x0D, CHR '' '']"

definition octal_class :: "char list" where
  "octal_class = ''01234567''"

text \<open>\<^verbatim>\<open>^[1-7][0-7]{2,}$\<close>\<close>

definition fmtImplicitInt :: rexp where
  "fmtImplicitInt = Seq (Cls ''1234567'') (Rep2up (Cls octal_class))"

text \<open>\<^verbatim>\<open>^0o?[0-7]{3,}$\<close>\<close>

definition fmtExplicitInt :: rexp where
  "fmtExplicitInt = Seq (Cls ''0'') (Seq (Opt (Cls ''o'')) (Rep3up (Cls octal_class)))"

text \<open>\<^verbatim>\<open>^((a|[ugo]{1,3})([-=+])([rwx]{1,3})\s?)+$\<close>\<close>

definition symbolicClause :: rexp where
  "symbolicClause =
     Seq (Alt (Cls ''a'') (Rep1to3 (Cls ''ugo'')))
       (Seq (Cls ''-=+'') (Seq (Rep1to3 (Cls ''rwx'')) (Opt (Cls space_class))))"

definition fmtSymbolicMatch :: rexp where
  "fmtSymbolicMatch = Plus symbolicClause"

text \<open>\<^verbatim>\<open>(r|-)(w|-)(x|-)\<close>, the body shared by the three fixed-width patterns.\<close>

definition rwxGroup :: rexp where
  "rwxGroup = Seq (Alt (Cls ''r'') (Cls ''-''))
                (Seq (Alt (Cls ''w'') (Cls ''-'')) (Alt (Cls ''x'') (Cls ''-'')))"

text \<open>\<^verbatim>\<open>^(r|-)(w|-)(x|-)$\<close>\<close>

definition fmtBasicSingle :: rexp where
  "fmtBasicSingle = rwxGroup"

text \<open>\<^verbatim>\<open>^(r|-)(w|-)(x|-)(r|-)(w|-)(x|-)(r|-)(w|-)(x|-)$\<close>\<close>

definition fmtBasicTriple :: rexp where
  "fmtBasicTriple = Seq rwxGroup (Seq rwxGroup rwxGroup)"

text \<open>\<^verbatim>\<open>^(-|[dalTLDpSugct?]*)(r|-)(w|-)(x|-)(r|-)(w|-)(x|-)(r|-)(w|-)(x|-)$\<close>\<close>

definition fmtFull :: rexp where
  "fmtFull = Seq (Alt (Cls ''-'') (Star (Cls ''dalTLDpSugct?''))) fmtBasicTriple"


section \<open>Package strconv: \<^verbatim>\<open>ParseUint\<close>\<close>

text \<open>
  \<^verbatim>\<open>strconv.ParseUint(s, base, bitSize)\<close> of the Go standard library, which both octal
  decoders call. It returns a \<^verbatim>\<open>uint64\<close> and an error; the accumulator is a 64-bit word and
  the two overflow checks are the library's own.
\<close>

datatype num_error = ErrSyntax | ErrRange | ErrBase | ErrBitSize

definition byte :: "char \<Rightarrow> nat" where
  "byte c = of_char c"

text \<open>\<^verbatim>\<open>lower(c) = c | ('x' - 'X')\<close>\<close>

definition lower :: "char \<Rightarrow> nat" where
  "lower c = byte c OR 32"

definition digitVal :: "char \<Rightarrow> nat option" where
  "digitVal c =
     (if 48 \<le> byte c \<and> byte c \<le> 57 then Some (byte c - 48)
      else if 97 \<le> lower c \<and> lower c \<le> 122 then Some (lower c - 97 + 10)
      else None)"

text \<open>
  The digit loop. \<open>Inl\<close> is an early \<^verbatim>\<open>return\<close> from inside the loop, \<open>Inr\<close> the loop running
  to its end with the accumulator and the \<^verbatim>\<open>underscores\<close> flag.
\<close>

fun parseLoop ::
  "nat \<Rightarrow> bool \<Rightarrow> 64 word \<Rightarrow> 64 word \<Rightarrow> string \<Rightarrow> bool \<Rightarrow> 64 word
     \<Rightarrow> (64 word \<times> num_error option) + (64 word \<times> bool)" where
  "parseLoop base base0 cutoff maxVal [] underscores n = Inr (n, underscores)"
| "parseLoop base base0 cutoff maxVal (c # cs) underscores n =
     (if c = CHR ''_'' \<and> base0 then parseLoop base base0 cutoff maxVal cs True n
      else case digitVal c of
        None \<Rightarrow> Inl (0, Some ErrSyntax)
      | Some d \<Rightarrow>
          if d \<ge> base then Inl (0, Some ErrSyntax)
          else if n \<ge> cutoff then Inl (maxVal, Some ErrRange)
          else
            let n' = n * of_nat base;
                n1 = n' + of_nat d
            in if n1 < n' \<or> n1 > maxVal then Inl (maxVal, Some ErrRange)
               else parseLoop base base0 cutoff maxVal cs underscores n1)"

text \<open>\<^verbatim>\<open>underscoreOK\<close>: underscores may only separate digits (or follow the base prefix).\<close>

fun underscoreScan :: "bool \<Rightarrow> char \<Rightarrow> string \<Rightarrow> bool" where
  "underscoreScan hex saw [] = (saw \<noteq> CHR ''_'')"
| "underscoreScan hex saw (c # cs) =
     (if (48 \<le> byte c \<and> byte c \<le> 57) \<or> (hex \<and> 97 \<le> lower c \<and> lower c \<le> 102)
      then underscoreScan hex (CHR ''0'') cs
      else if c = CHR ''_''
      then (if saw \<noteq> CHR ''0'' then False else underscoreScan hex (CHR ''_'') cs)
      else if saw = CHR ''_'' then False
      else underscoreScan hex (CHR ''!'') cs)"

definition underscoreOK :: "string \<Rightarrow> bool" where
  "underscoreOK s0 =
     (let s = (case s0 of c # cs \<Rightarrow> if c = CHR ''-'' \<or> c = CHR ''+'' then cs else s0 | [] \<Rightarrow> s0)
      in case s of
           c0 # c1 # cs \<Rightarrow>
             if c0 = CHR ''0'' \<and> (lower c1 = 98 \<or> lower c1 = 111 \<or> lower c1 = 120)
             then underscoreScan (lower c1 = 120) (CHR ''0'') cs
             else underscoreScan False (CHR ''^'') s
         | _ \<Rightarrow> underscoreScan False (CHR ''^'') s)"

text \<open>The base-0 prefix switch: the base the digits are read in, and the digits.\<close>

definition basePrefix :: "string \<Rightarrow> nat \<times> string" where
  "basePrefix s =
     (case s of
        c0 # rest \<Rightarrow>
          if c0 = CHR ''0'' then
            (case rest of
               c1 # rest' \<Rightarrow>
                 if length s \<ge> 3 \<and> lower c1 = 98 then (2, rest')
                 else if length s \<ge> 3 \<and> lower c1 = 111 then (8, rest')
                 else if length s \<ge> 3 \<and> lower c1 = 120 then (16, rest')
                 else (8, rest)
             | [] \<Rightarrow> (8, rest))
          else (10, s)
      | [] \<Rightarrow> (10, s))"

definition ParseUint :: "string \<Rightarrow> nat \<Rightarrow> nat \<Rightarrow> 64 word \<times> num_error option" where
  "ParseUint s0 base0 bitSize0 =
     (if s0 = [] then (0, Some ErrSyntax)
      else if \<not> (2 \<le> base0 \<and> base0 \<le> 36) \<and> base0 \<noteq> 0 then (0, Some ErrBase)
      else
        let (base, s) = (if base0 = 0 then basePrefix s0 else (base0, s0));
            bitSize = (if bitSize0 = 0 then 64 else bitSize0)
        in if bitSize > 64 then (0, Some ErrBitSize)
           else
             let cutoff = (- 1) div of_nat base + 1;
                 maxVal = push_bit bitSize 1 - 1
             in case parseLoop base (base0 = 0) cutoff maxVal s False 0 of
                  Inl early \<Rightarrow> early
                | Inr (n, underscores) \<Rightarrow>
                    if underscores \<and> \<not> underscoreOK s0 then (0, Some ErrSyntax)
                    else (n, None))"

section \<open>Package io/fs: the mode bits and \<^verbatim>\<open>FileMode.String\<close>\<close>

type_synonym Perm = "32 word"

definition ModeDir :: Perm where "ModeDir = push_bit 31 1"
definition ModeAppend :: Perm where "ModeAppend = push_bit 30 1"
definition ModeExclusive :: Perm where "ModeExclusive = push_bit 29 1"
definition ModeTemporary :: Perm where "ModeTemporary = push_bit 28 1"
definition ModeSymlink :: Perm where "ModeSymlink = push_bit 27 1"
definition ModeDevice :: Perm where "ModeDevice = push_bit 26 1"
definition ModeNamedPipe :: Perm where "ModeNamedPipe = push_bit 25 1"
definition ModeSocket :: Perm where "ModeSocket = push_bit 24 1"
definition ModeSetuid :: Perm where "ModeSetuid = push_bit 23 1"
definition ModeSetgid :: Perm where "ModeSetgid = push_bit 22 1"
definition ModeCharDevice :: Perm where "ModeCharDevice = push_bit 21 1"
definition ModeSticky :: Perm where "ModeSticky = push_bit 20 1"
definition ModeIrregular :: Perm where "ModeIrregular = push_bit 19 1"

text \<open>\<^verbatim>\<open>ModePerm = 0777\<close>, the nine permission bits.\<close>

definition ModePerm :: Perm where "ModePerm = 511"

text \<open>
  \<^verbatim>\<open>FileMode.String\<close>: one letter of \<^verbatim>\<open>"dalTLDpSugct?"\<close> for each of the bits 31 down to 19
  that is set, a single \<^verbatim>\<open>-\<close> when none is, then the nine permission bits as \<^verbatim>\<open>rwxrwxrwx\<close>
  with \<^verbatim>\<open>-\<close> for a clear bit.
\<close>

definition modeLetters :: string where
  "modeLetters = ''dalTLDpSugct?''"

definition FileMode_String :: "Perm \<Rightarrow> string" where
  "FileMode_String m =
     (let buf = map snd (filter (\<lambda>(i, c). m AND push_bit (32 - 1 - i) 1 \<noteq> 0)
                          (enumerate 0 modeLetters));
          buf = (if buf = [] then ''-'' else buf)
      in buf @ map (\<lambda>(i, c). if m AND push_bit (9 - 1 - i) 1 \<noteq> 0 then c else CHR ''-'')
                 (enumerate 0 ''rwxrwxrwx''))"

section \<open>Package fmt: the octal verbs used by the tests\<close>

text \<open>\<^verbatim>\<open>Sprintf("%o", v)\<close> and \<^verbatim>\<open>Sprintf("%03o", v)\<close> for an unsigned \<open>v\<close>.\<close>

text \<open>The digit table; \<open>octDigit\<close> is only asked for \<open>d < 8\<close>.\<close>

definition octDigit :: "nat \<Rightarrow> char" where
  "octDigit d = ''01234567'' ! d"

fun fmt_o :: "nat \<Rightarrow> string" where
  "fmt_o v = (if v < 8 then [octDigit v] else fmt_o (v div 8) @ [octDigit (v mod 8)])"

declare fmt_o.simps [simp del]

definition fmt_03o :: "nat \<Rightarrow> string" where
  "fmt_03o v = replicate (3 - length (fmt_o v)) (CHR ''0'') @ fmt_o v"


section \<open>Package posixperm: the decoders of \<^verbatim>\<open>main.go\<close>\<close>

text \<open>The octal literals of the source, under their own spelling.\<close>

abbreviation (input) o777 :: Perm where "o777 \<equiv> 511"
abbreviation (input) o700 :: Perm where "o700 \<equiv> 448"
abbreviation (input) o070 :: Perm where "o070 \<equiv> 56"
abbreviation (input) o007 :: Perm where "o007 \<equiv> 7"
abbreviation (input) o444 :: Perm where "o444 \<equiv> 292"
abbreviation (input) o222 :: Perm where "o222 \<equiv> 146"
abbreviation (input) o111 :: Perm where "o111 \<equiv> 73"
abbreviation (input) o400 :: Perm where "o400 \<equiv> 256"
abbreviation (input) o200 :: Perm where "o200 \<equiv> 128"
abbreviation (input) o100 :: Perm where "o100 \<equiv> 64"
abbreviation (input) o040 :: Perm where "o040 \<equiv> 32"
abbreviation (input) o020 :: Perm where "o020 \<equiv> 16"
abbreviation (input) o010 :: Perm where "o010 \<equiv> 8"
abbreviation (input) o004 :: Perm where "o004 \<equiv> 4"
abbreviation (input) o002 :: Perm where "o002 \<equiv> 2"
abbreviation (input) o001 :: Perm where "o001 \<equiv> 1"

text \<open>
  A method on \<^verbatim>\<open>*Perm\<close> takes the receiver's value and either panics or returns, with an
  error or \<^verbatim>\<open>nil\<close>, leaving a value in the receiver.
\<close>

datatype error =
    ErrImplicitOctal num_error   \<comment> \<open>"cannot parse implicit octal permission value"\<close>
  | ErrOctal num_error           \<comment> \<open>"cannot parse octal permission value"\<close>
  | ErrUnrecognized              \<comment> \<open>"unrecognized permission syntax"\<close>

datatype outcome =
    Panic
  | Return "error option" Perm

text \<open>Indexing a slice: out of range is a run-time panic, here \<open>None\<close>.\<close>

definition at :: "'a list \<Rightarrow> nat \<Rightarrow> 'a option" where
  "at xs i = (if i < length xs then Some (xs ! i) else None)"

definition fromImplicit :: "Perm \<Rightarrow> string \<Rightarrow> outcome" where
  "fromImplicit p b =
     (case ParseUint b 8 32 of
        (v, Some err) \<Rightarrow> Return (Some (ErrImplicitOctal err)) p
      | (v, None) \<Rightarrow> Return None (ucast v))"

definition fromExplicit :: "Perm \<Rightarrow> string \<Rightarrow> outcome" where
  "fromExplicit p b =
     (case ParseUint b 0 32 of
        (v, Some err) \<Rightarrow> Return (Some (ErrOctal err)) p
      | (v, None) \<Rightarrow> Return None (ucast v))"

subsection \<open>\<^verbatim>\<open>fmtSymbolicExtract.FindAllSubmatch(b, -1)\<close>\<close>

text \<open>
  \<^verbatim>\<open>(a|[ugo]{1,3})([-=+])([rwx]{1,3})\<close> is not anchored. Go's matching is leftmost-first:
  at a starting position the alternative \<^verbatim>\<open>a\<close> is tried before \<^verbatim>\<open>[ugo]{1,3}\<close>, and a counted
  repetition tries its longest run first; the first combination that completes is the match.
  \<open>actorTries\<close> and \<open>permTries\<close> list the candidate lengths of groups 1 and 3 in that order.
\<close>

definition actorTries :: "string \<Rightarrow> nat list" where
  "actorTries s =
     (if take 1 s = ''a'' then [1] else []) @
     filter (\<lambda>k. k \<le> length s \<and> list_all (\<lambda>c. c \<in> set ''ugo'') (take k s)) [3, 2, 1]"

definition permTries :: "string \<Rightarrow> nat list" where
  "permTries s =
     filter (\<lambda>k. k \<le> length s \<and> list_all (\<lambda>c. c \<in> set ''rwx'') (take k s)) [3, 2, 1]"

fun firstSome :: "'a option list \<Rightarrow> 'a option" where
  "firstSome [] = None"
| "firstSome (None # xs) = firstSome xs"
| "firstSome (Some x # xs) = Some x"

text \<open>The match starting at the head of \<open>s\<close>, if any: groups 1, 2 and 3.\<close>

definition extractAt :: "string \<Rightarrow> (string \<times> string \<times> string) option" where
  "extractAt s =
     firstSome (map (\<lambda>k.
        case drop k s of
          [] \<Rightarrow> None
        | op # r \<Rightarrow>
            if op \<in> set ''-=+'' then
              (case permTries r of
                 [] \<Rightarrow> None
               | j # _ \<Rightarrow> Some (take k s, [op], take j r))
            else None) (actorTries s))"

text \<open>
  All successive matches: the search resumes where the previous match ended, and moves one
  byte on where no match starts. Each match is the slice of its groups 0 to 3.
\<close>

function FindAllSubmatch :: "string \<Rightarrow> string list list" where
  "FindAllSubmatch [] = []"
| "FindAllSubmatch (c # cs) =
     (case extractAt (c # cs) of
        None \<Rightarrow> FindAllSubmatch cs
      | Some (g1, g2, g3) \<Rightarrow>
          [g1 @ g2 @ g3, g1, g2, g3] #
            FindAllSubmatch (drop (length (g1 @ g2 @ g3)) (c # cs)))"
  by pat_completeness auto
termination
proof (relation "measure length")
  fix c cs x2 g1 y g2 g3
  assume ex: "extractAt (c # cs) = Some x2" and x2: "(g1, y) = x2" and y: "(g2, g3) = y"
  have some: "firstSome xs = Some (a, b, d) \<Longrightarrow> Some (a, b, d) \<in> set xs" for xs and a b d :: string
    by (induction xs rule: firstSome.induct) auto
  from ex x2 y have "extractAt (c # cs) = Some (g1, g2, g3)" by simp
  then have "g2 \<noteq> []"
    unfolding extractAt_def
    by (auto dest!: some split: list.splits if_splits)
  then have "0 < length (g1 @ g2 @ g3)" by simp
  then show "(drop (length (g1 @ g2 @ g3)) (c # cs), c # cs) \<in> measure length"
    by simp
qed simp_all

subsection \<open>\<^verbatim>\<open>fromSymbolic\<close>\<close>

text \<open>The body of the loop over group 1, \<^verbatim>\<open>switch sym\<close> on the actor letters (\<open>symb\<close> is the source's \<^verbatim>\<open>sym\<close>).\<close>

definition actorSym :: "Perm \<Rightarrow> char \<Rightarrow> Perm" where
  "actorSym actor symb =
     (if symb = CHR ''a'' then o777
      else if symb = CHR ''u'' then actor OR o700
      else if symb = CHR ''g'' then actor OR o070
      else if symb = CHR ''o'' then actor OR o007
      else actor)"

text \<open>The body of the loop over group 3.\<close>

definition permSym :: "Perm \<Rightarrow> char \<Rightarrow> Perm" where
  "permSym actorperm symb =
     (if symb = CHR ''r'' then actorperm OR o444
      else if symb = CHR ''w'' then actorperm OR o222
      else if symb = CHR ''x'' then actorperm OR o111
      else actorperm)"

text \<open>\<^verbatim>\<open>switch permexpr[2][0]\<close>\<close>

definition applyOp :: "char \<Rightarrow> Perm \<Rightarrow> Perm \<Rightarrow> Perm \<Rightarrow> Perm" where
  "applyOp op actor actorperm perm =
     (if op = CHR ''+'' then perm OR (actor AND actorperm)
      else if op = CHR ''-'' then perm AND NOT (actor AND actorperm)
      else if op = CHR ''='' then (perm AND NOT actor) OR (actor AND actorperm)
      else perm)"

text \<open>The loop over the matches, from the accumulator \<^verbatim>\<open>perm\<close>; \<open>None\<close> is a panic.\<close>

fun symbolicLoop :: "Perm \<Rightarrow> string list list \<Rightarrow> Perm option" where
  "symbolicLoop perm [] = Some perm"
| "symbolicLoop perm (permexpr # rest) =
     do {
       e1 \<leftarrow> at permexpr 1;
       let actor = foldl actorSym 0 e1;
       e3 \<leftarrow> at permexpr 3;
       let actorperm = foldl permSym 0 e3;
       e2 \<leftarrow> at permexpr 2;
       op \<leftarrow> at e2 0;
       symbolicLoop (applyOp op actor actorperm perm) rest
     }"

definition fromSymbolic :: "Perm \<Rightarrow> string \<Rightarrow> outcome" where
  "fromSymbolic p b =
     (case symbolicLoop 0 (FindAllSubmatch b) of
        None \<Rightarrow> Panic
      | Some perm \<Rightarrow> Return None perm)"

subsection \<open>\<^verbatim>\<open>fromBasicSingle\<close>, \<^verbatim>\<open>fromBasicTriple\<close>, \<^verbatim>\<open>fromFull\<close>\<close>

text \<open>\<^verbatim>\<open>if cond { perm = perm | bits }\<close>\<close>

definition orIf :: "bool \<Rightarrow> Perm \<Rightarrow> Perm \<Rightarrow> Perm" where
  "orIf cond bits perm = (if cond then perm OR bits else perm)"

definition basicSinglePerm :: "string \<Rightarrow> Perm option" where
  "basicSinglePerm b =
     do {
       let perm = 0;
       b0 \<leftarrow> at b 0; let perm = orIf (b0 = CHR ''r'') o444 perm;
       b1 \<leftarrow> at b 1; let perm = orIf (b1 = CHR ''w'') o222 perm;
       b2 \<leftarrow> at b 2; let perm = orIf (b2 = CHR ''x'') o111 perm;
       Some perm
     }"

definition fromBasicSingle :: "Perm \<Rightarrow> string \<Rightarrow> outcome" where
  "fromBasicSingle p b =
     (case basicSinglePerm b of None \<Rightarrow> Panic | Some perm \<Rightarrow> Return None perm)"

definition basicTriplePerm :: "string \<Rightarrow> Perm option" where
  "basicTriplePerm b =
     do {
       let perm = 0;
       b0 \<leftarrow> at b 0; let perm = orIf (b0 = CHR ''r'') o400 perm;
       b1 \<leftarrow> at b 1; let perm = orIf (b1 = CHR ''w'') o200 perm;
       b2 \<leftarrow> at b 2; let perm = orIf (b2 = CHR ''x'') o100 perm;
       b3 \<leftarrow> at b 3; let perm = orIf (b3 = CHR ''r'') o040 perm;
       b4 \<leftarrow> at b 4; let perm = orIf (b4 = CHR ''w'') o020 perm;
       b5 \<leftarrow> at b 5; let perm = orIf (b5 = CHR ''x'') o010 perm;
       b6 \<leftarrow> at b 6; let perm = orIf (b6 = CHR ''r'') o004 perm;
       b7 \<leftarrow> at b 7; let perm = orIf (b7 = CHR ''w'') o002 perm;
       b8 \<leftarrow> at b 8; let perm = orIf (b8 = CHR ''x'') o001 perm;
       Some perm
     }"

definition fromBasicTriple :: "Perm \<Rightarrow> string \<Rightarrow> outcome" where
  "fromBasicTriple p b =
     (case basicTriplePerm b of None \<Rightarrow> Panic | Some perm \<Rightarrow> Return None perm)"

text \<open>
  \<^verbatim>\<open>fmtFull.FindSubmatch(b)\<close>: \<^verbatim>\<open>nil\<close> (the empty slice) when \<open>b\<close> does not match. When it does,
  groups 2 to 10 are the last nine bytes, one each, so group 1 is everything before them,
  and group 0 is \<open>b\<close>.
\<close>

definition FindSubmatch_fmtFull :: "string \<Rightarrow> string list" where
  "FindSubmatch_fmtFull b =
     (if Match fmtFull b
      then b # take (length b - 9) b # map (\<lambda>c. [c]) (drop (length b - 9) b)
      else [])"

text \<open>The body of the loop over group 1, \<^verbatim>\<open>switch attr\<close>.\<close>

definition fullAttr :: "Perm \<Rightarrow> char \<Rightarrow> Perm" where
  "fullAttr perm attr =
     (if attr = CHR ''d'' then perm OR ModeDir
      else if attr = CHR ''a'' then perm OR ModeAppend
      else if attr = CHR ''l'' then perm OR ModeExclusive
      else if attr = CHR ''T'' then perm OR ModeTemporary
      else if attr = CHR ''L'' then perm OR ModeSymlink
      else if attr = CHR ''D'' then perm OR ModeDevice
      else if attr = CHR ''p'' then perm OR ModeNamedPipe
      else if attr = CHR ''S'' then perm OR ModeSocket
      else if attr = CHR ''u'' then perm OR ModeSetuid
      else if attr = CHR ''g'' then perm OR ModeSetgid
      else if attr = CHR ''c'' then perm OR ModeCharDevice
      else if attr = CHR ''t'' then perm OR ModeSticky
      else if attr = CHR ''?'' then perm OR ModeIrregular
      else perm)"

definition fullPerm :: "string list \<Rightarrow> Perm option" where
  "fullPerm m =
     do {
       m1 \<leftarrow> at m 1;
       let perm = foldl fullAttr 0 m1;
       m2 \<leftarrow> at m 2; c \<leftarrow> at m2 0; let perm = orIf (c = CHR ''r'') o400 perm;
       m3 \<leftarrow> at m 3; c \<leftarrow> at m3 0; let perm = orIf (c = CHR ''w'') o200 perm;
       m4 \<leftarrow> at m 4; c \<leftarrow> at m4 0; let perm = orIf (c = CHR ''x'') o100 perm;
       m5 \<leftarrow> at m 5; c \<leftarrow> at m5 0; let perm = orIf (c = CHR ''r'') o040 perm;
       m6 \<leftarrow> at m 6; c \<leftarrow> at m6 0; let perm = orIf (c = CHR ''w'') o020 perm;
       m7 \<leftarrow> at m 7; c \<leftarrow> at m7 0; let perm = orIf (c = CHR ''x'') o010 perm;
       m8 \<leftarrow> at m 8; c \<leftarrow> at m8 0; let perm = orIf (c = CHR ''r'') o004 perm;
       m9 \<leftarrow> at m 9; c \<leftarrow> at m9 0; let perm = orIf (c = CHR ''w'') o002 perm;
       m10 \<leftarrow> at m 10; c \<leftarrow> at m10 0; let perm = orIf (c = CHR ''x'') o001 perm;
       Some perm
     }"

definition fromFull :: "Perm \<Rightarrow> string \<Rightarrow> outcome" where
  "fromFull p b =
     (case fullPerm (FindSubmatch_fmtFull b) of None \<Rightarrow> Panic | Some perm \<Rightarrow> Return None perm)"

subsection \<open>The entry points\<close>

definition UnmarshalText :: "Perm \<Rightarrow> string \<Rightarrow> outcome" where
  "UnmarshalText p b =
     (if Match fmtImplicitInt b then fromImplicit p b
      else if Match fmtExplicitInt b then fromExplicit p b
      else if Match fmtBasicSingle b then fromBasicSingle p b
      else if Match fmtBasicTriple b then fromBasicTriple p b
      else if Match fmtSymbolicMatch b then fromSymbolic p b
      else if Match fmtFull b then fromFull p b
      else Return (Some ErrUnrecognized) p)"

text \<open>\<^verbatim>\<open>String\<close> is \<^verbatim>\<open>fs.FileMode(p).String()\<close>; \<^verbatim>\<open>MarshalText\<close> returns its bytes and a nil error.\<close>

definition String :: "Perm \<Rightarrow> string" where
  "String p = FileMode_String p"

definition MarshalText :: "Perm \<Rightarrow> string \<times> error option" where
  "MarshalText p = (String p, None)"

text \<open>\<^verbatim>\<open>FromString\<close> unmarshals into its zero-valued named result \<open>r\<close>.\<close>

definition FromString :: "string \<Rightarrow> outcome" where
  "FromString s = UnmarshalText 0 s"


section \<open>The language of a pattern\<close>

text \<open>
  The set of byte strings a pattern denotes, used to reason about \<open>Match\<close> on all inputs at
  once; \<open>Match\<close> itself computes by derivatives.
\<close>


definition conc :: "string set \<Rightarrow> string set \<Rightarrow> string set" where
  "conc A B = {u @ v | u v. u \<in> A \<and> v \<in> B}"

inductive_set star :: "string set \<Rightarrow> string set" for A :: "string set" where
  star_empty: "[] \<in> star A"
| star_step: "u \<in> A \<Longrightarrow> v \<in> star A \<Longrightarrow> u @ v \<in> star A"

definition chars :: "char list \<Rightarrow> string set" where
  "chars cs = {[c] | c. c \<in> set cs}"

fun lang :: "rexp \<Rightarrow> string set" where
  "lang Zero = {}"
| "lang One = {[]}"
| "lang (Cls cs) = chars cs"
| "lang (Alt r s) = lang r \<union> lang s"
| "lang (Seq r s) = conc (lang r) (lang s)"
| "lang (Star r) = star (lang r)"

section \<open>Shapes of input text\<close>

text \<open>
  The three parts of a symbolic clause and the separator that may follow it, as the
  pattern \<^verbatim>\<open>(a|[ugo]{1,3})([-=+])([rwx]{1,3})\s?\<close> admits them.
\<close>

definition actorText :: "string \<Rightarrow> bool" where
  "actorText a \<longleftrightarrow> a = ''a'' \<or> (a \<noteq> [] \<and> length a \<le> 3 \<and> set a \<subseteq> set ''ugo'')"

definition permText :: "string \<Rightarrow> bool" where
  "permText p \<longleftrightarrow> p \<noteq> [] \<and> length p \<le> 3 \<and> set p \<subseteq> set ''rwx''"

definition sepText :: "string \<Rightarrow> bool" where
  "sepText w \<longleftrightarrow> w = [] \<or> (\<exists>c. w = [c] \<and> c \<in> set space_class)"

text \<open>One of the last eight bytes is an actor letter.\<close>

definition actorNearEnd :: "string \<Rightarrow> bool" where
  "actorNearEnd b \<longleftrightarrow> (\<exists>c \<in> set (take 8 (rev b)). c \<in> set ''augo'')"

section \<open>The enumerated bits\<close>

text \<open>
  The thirteen mode, type and special bits that \<^verbatim>\<open>fromFull\<close> can set, and with the nine
  permission bits every bit position the data model names.
\<close>

definition specialBits :: Perm where
  "specialBits =
     ModeDir OR ModeAppend OR ModeExclusive OR ModeTemporary OR ModeSymlink OR ModeDevice
     OR ModeNamedPipe OR ModeSocket OR ModeSetuid OR ModeSetgid OR ModeCharDevice
     OR ModeSticky OR ModeIrregular"

definition enumeratedBits :: Perm where
  "enumeratedBits = ModePerm OR specialBits"

text \<open>A match of the extraction pattern: the slice of its groups 0 to 3, group 2 one byte.\<close>

definition matchShape :: "string list \<Rightarrow> bool" where
  "matchShape m \<longleftrightarrow> (\<exists>g1 op g3. m = [g1 @ [op] @ g3, g1, [op], g3])"

section \<open>The number an octal digit string denotes\<close>

definition octalStep :: "nat \<Rightarrow> char \<Rightarrow> nat" where
  "octalStep n c = 8 * n + (byte c - 48)"

definition octalValue :: "string \<Rightarrow> nat" where
  "octalValue ds = foldl octalStep 0 ds"

section \<open>Classification as the specification words it\<close>

text \<open>
  The six grammars of the specification's table, each with its pattern and its decoder, and
  the order in which the specification says they are tried. \<open>UnmarshalText_specOrder\<close>
  follows the specification's words (first match in that order wins, no match is a failure);
  \<open>UnmarshalText\<close> above follows the code, which tests the basic forms before the symbolic
  one.
\<close>

datatype grammar = ImplicitOctal | ExplicitOctal | Symbolic | BasicSingle | BasicTriple | Full

fun pattern :: "grammar \<Rightarrow> rexp" where
  "pattern ImplicitOctal = fmtImplicitInt"
| "pattern ExplicitOctal = fmtExplicitInt"
| "pattern Symbolic = fmtSymbolicMatch"
| "pattern BasicSingle = fmtBasicSingle"
| "pattern BasicTriple = fmtBasicTriple"
| "pattern Full = fmtFull"

fun decode :: "grammar \<Rightarrow> Perm \<Rightarrow> string \<Rightarrow> outcome" where
  "decode ImplicitOctal = fromImplicit"
| "decode ExplicitOctal = fromExplicit"
| "decode Symbolic = fromSymbolic"
| "decode BasicSingle = fromBasicSingle"
| "decode BasicTriple = fromBasicTriple"
| "decode Full = fromFull"

definition specOrder :: "grammar list" where
  "specOrder = [ImplicitOctal, ExplicitOctal, Symbolic, BasicSingle, BasicTriple, Full]"

definition UnmarshalText_specOrder :: "Perm \<Rightarrow> string \<Rightarrow> outcome" where
  "UnmarshalText_specOrder p b =
     (case find (\<lambda>g. Match (pattern g) b) specOrder of
        None \<Rightarrow> Return (Some ErrUnrecognized) p
      | Some g \<Rightarrow> decode g p b)"

text \<open>\<open>b\<close> is accepted by the grammar \<open>g\<close> and by no other.\<close>

definition onlyGrammar :: "grammar \<Rightarrow> string \<Rightarrow> bool" where
  "onlyGrammar g b \<longleftrightarrow>
     Match (pattern g) b \<and> list_all (\<lambda>g'. g' = g \<or> \<not> Match (pattern g') b) specOrder"

text \<open>The digits of an explicit octal string, after its \<^verbatim>\<open>0o\<close> or \<^verbatim>\<open>0\<close> prefix.\<close>

definition explicitDigits :: "string \<Rightarrow> string" where
  "explicitDigits b = (if take 2 b = ''0o'' then drop 2 b else drop 1 b)"

section \<open>Symbolic expressions as the specification words them\<close>

text \<open>
  A clause is its actor letters, its operator, its permission letters and the separator
  written after it (nothing, or one white-space byte). The masks and the three operators
  follow the specification: \<^verbatim>\<open>a\<close> is all three actor nibbles and each of \<^verbatim>\<open>u\<close>, \<^verbatim>\<open>g\<close>, \<^verbatim>\<open>o\<close> adds
  its own; \<^verbatim>\<open>r\<close>, \<^verbatim>\<open>w\<close>, \<^verbatim>\<open>x\<close> add the read, write and execute bit of every nibble; \<^verbatim>\<open>+\<close> ORs
  (actor-mask AND perm-mask) into the accumulator, \<^verbatim>\<open>-\<close> ANDs the accumulator with its
  complement, \<^verbatim>\<open>=\<close> clears the actor-mask and then ORs it in. The clauses are applied from
  left to right to an accumulator that starts at zero.
\<close>

type_synonym clause = "string \<times> char \<times> string \<times> string"

definition actorMask :: "string \<Rightarrow> Perm" where
  "actorMask a =
     (if CHR ''a'' \<in> set a then o777 else 0) OR (if CHR ''u'' \<in> set a then o700 else 0)
     OR (if CHR ''g'' \<in> set a then o070 else 0) OR (if CHR ''o'' \<in> set a then o007 else 0)"

definition permMask :: "string \<Rightarrow> Perm" where
  "permMask p =
     (if CHR ''r'' \<in> set p then o444 else 0) OR (if CHR ''w'' \<in> set p then o222 else 0)
     OR (if CHR ''x'' \<in> set p then o111 else 0)"

fun applyClause :: "Perm \<Rightarrow> clause \<Rightarrow> Perm" where
  "applyClause acc (a, op, p, sep) =
     (if op = CHR ''+'' then acc OR (actorMask a AND permMask p)
      else if op = CHR ''-'' then acc AND NOT (actorMask a AND permMask p)
      else if op = CHR ''='' then (acc AND NOT (actorMask a)) OR (actorMask a AND permMask p)
      else acc)"

definition symbolicSpec :: "clause list \<Rightarrow> Perm" where
  "symbolicSpec cs = foldl applyClause 0 cs"

fun clauseText :: "clause \<Rightarrow> string" where
  "clauseText (a, op, p, sep) = a @ op # p @ sep"

definition render :: "clause list \<Rightarrow> string" where
  "render cs = concat (map clauseText cs)"

fun wfClause :: "clause \<Rightarrow> bool" where
  "wfClause (a, op, p, sep) \<longleftrightarrow> actorText a \<and> op \<in> set ''-=+'' \<and> permText p \<and> sepText sep"

text \<open>The match that \<open>FindAllSubmatch\<close> reports for a clause: groups 0 to 3.\<close>

fun clauseGroups :: "clause \<Rightarrow> string list" where
  "clauseGroups (a, op, p, sep) = [a @ [op] @ p, a, [op], p]"

section \<open>Canonical full-form strings\<close>

text \<open>
  \<open>isSubseq xs ys\<close>: the bytes of \<open>xs\<close> occur in \<open>ys\<close> in the same order. The prefix that
  \<^verbatim>\<open>FileMode.String\<close> writes is a single \<^verbatim>\<open>-\<close>, or letters of \<^verbatim>\<open>"dalTLDpSugct?"\<close> in that order,
  each at most once and at least one.
\<close>

fun isSubseq :: "string \<Rightarrow> string \<Rightarrow> bool" where
  "isSubseq [] ys = True"
| "isSubseq (x # xs) [] = False"
| "isSubseq (x # xs) (y # ys) = (if x = y then isSubseq xs ys else isSubseq (x # xs) ys)"

definition canonicalPrefix :: "string \<Rightarrow> bool" where
  "canonicalPrefix pre \<longleftrightarrow> pre = ''-'' \<or> (pre \<noteq> [] \<and> isSubseq pre modeLetters)"

text \<open>The mode bit that \<^verbatim>\<open>fromFull\<close> binds to a prefix byte, zero for any other byte.\<close>

definition modeOf :: "char \<Rightarrow> Perm" where
  "modeOf attr =
     (if attr = CHR ''d'' then ModeDir
      else if attr = CHR ''a'' then ModeAppend
      else if attr = CHR ''l'' then ModeExclusive
      else if attr = CHR ''T'' then ModeTemporary
      else if attr = CHR ''L'' then ModeSymlink
      else if attr = CHR ''D'' then ModeDevice
      else if attr = CHR ''p'' then ModeNamedPipe
      else if attr = CHR ''S'' then ModeSocket
      else if attr = CHR ''u'' then ModeSetuid
      else if attr = CHR ''g'' then ModeSetgid
      else if attr = CHR ''c'' then ModeCharDevice
      else if attr = CHR ''t'' then ModeSticky
      else if attr = CHR ''?'' then ModeIrregular
      else 0)"

text \<open>The value \<^verbatim>\<open>fromFull\<close> builds from group 1 and the nine bytes after it.\<close>

definition fullValue :: "string \<Rightarrow> string \<Rightarrow> Perm" where
  "fullValue pre t =
     orIf (t ! 8 = CHR ''x'') 1 (orIf (t ! 7 = CHR ''w'') 2 (orIf (t ! 6 = CHR ''r'') 4
       (orIf (t ! 5 = CHR ''x'') 8 (orIf (t ! 4 = CHR ''w'') 16 (orIf (t ! 3 = CHR ''r'') 32
       (orIf (t ! 2 = CHR ''x'') 64 (orIf (t ! 1 = CHR ''w'') 128 (orIf (t ! 0 = CHR ''r'') 256
       (foldl fullAttr 0 pre)))))))))"

section \<open>The fixed-width grammars as the specification words them\<close>

text \<open>
  Basic triple: each of the nine characters applies to its own bit position, in owner, group,
  other and read, write, execute order from bit 8 down to bit 0; the bit is set when the
  column's character is present, that is, is not \<^verbatim>\<open>-\<close>. Basic single: the three characters
  apply identically to all three actors. Full: each abbreviation that occurs in the prefix
  sets the bit bound to it, where the binding is the table the encoder reads (letter \<open>i\<close> of
  \<^verbatim>\<open>dalTLDpSugct?\<close> at bit \<open>31 - i\<close>), \<^verbatim>\<open>-\<close> sets none, and the last nine characters behave as
  a basic triple. None of these definitions mentions a decoder of \<^verbatim>\<open>main.go\<close>.
\<close>

definition permBitsSpec :: "string \<Rightarrow> Perm" where
  "permBitsSpec t =
     fold (\<lambda>(i, c) acc. if c \<noteq> CHR ''-'' then acc OR push_bit (9 - 1 - i) 1 else acc)
       (enumerate 0 t) 0"

definition basicTripleSpec :: "string \<Rightarrow> Perm" where
  "basicTripleSpec b = permBitsSpec b"

definition basicSingleSpec :: "string \<Rightarrow> Perm" where
  "basicSingleSpec b = permBitsSpec (b @ b @ b)"

definition specialBitsSpec :: "string \<Rightarrow> Perm" where
  "specialBitsSpec pre =
     fold (\<lambda>(i, c) acc. if c \<in> set pre then acc OR push_bit (32 - 1 - i) 1 else acc)
       (enumerate 0 modeLetters) 0"

definition fullSpec :: "string \<Rightarrow> Perm" where
  "fullSpec b =
     specialBitsSpec (take (length b - 9) b) OR permBitsSpec (drop (length b - 9) b)"

section \<open>Matching decides membership in the language\<close>

lemma conc_nil_iff: "[] \<in> conc A B \<longleftrightarrow> [] \<in> A \<and> [] \<in> B"
  by (auto simp: conc_def)

lemma nullable_lang: "nullable r \<longleftrightarrow> [] \<in> lang r"
  by (induction r) (auto simp: conc_nil_iff chars_def intro: star_empty)

lemma tail_conc:
  "{w. c # w \<in> conc A B} =
     conc {w. c # w \<in> A} B \<union> (if [] \<in> A then {w. c # w \<in> B} else {})"
proof -
  have "c # w \<in> conc A B \<longleftrightarrow>
          (\<exists>u v. w = u @ v \<and> c # u \<in> A \<and> v \<in> B) \<or> ([] \<in> A \<and> c # w \<in> B)" for w
  proof
    assume "c # w \<in> conc A B"
    then obtain u v where uv: "c # w = u @ v" "u \<in> A" "v \<in> B"
      by (auto simp: conc_def)
    show "(\<exists>u v. w = u @ v \<and> c # u \<in> A \<and> v \<in> B) \<or> ([] \<in> A \<and> c # w \<in> B)"
    proof (cases u)
      case Nil
      with uv show ?thesis by simp
    next
      case (Cons a u')
      with uv have "w = u' @ v" "c # u' \<in> A" by auto
      with uv show ?thesis by blast
    qed
  next
    assume "(\<exists>u v. w = u @ v \<and> c # u \<in> A \<and> v \<in> B) \<or> ([] \<in> A \<and> c # w \<in> B)"
    then show "c # w \<in> conc A B"
    proof
      assume "\<exists>u v. w = u @ v \<and> c # u \<in> A \<and> v \<in> B"
      then obtain u v where "w = u @ v" "c # u \<in> A" "v \<in> B" by blast
      then have "c # w = (c # u) @ v" by simp
      with \<open>c # u \<in> A\<close> \<open>v \<in> B\<close> show ?thesis unfolding conc_def by blast
    next
      assume "[] \<in> A \<and> c # w \<in> B"
      then have "c # w = [] @ (c # w)" "[] \<in> A" "c # w \<in> B" by simp_all
      then show ?thesis unfolding conc_def by blast
    qed
  qed
  then show ?thesis by (auto simp: conc_def)
qed

lemma star_cons_split:
  "x \<in> star A \<Longrightarrow> x = c # w \<Longrightarrow> \<exists>u v. w = u @ v \<and> c # u \<in> A \<and> v \<in> star A"
proof (induction arbitrary: w rule: star.induct)
  case star_empty
  then show ?case by simp
next
  case (star_step u v)
  show ?case
  proof (cases u)
    case Nil
    with star_step show ?thesis by simp
  next
    case (Cons a u')
    with star_step.prems have "w = u' @ v" "a = c" by auto
    with Cons star_step.hyps show ?thesis by blast
  qed
qed

lemma tail_star: "{w. c # w \<in> star A} = conc {w. c # w \<in> A} (star A)"
proof (rule set_eqI)
  fix w
  show "w \<in> {w. c # w \<in> star A} \<longleftrightarrow> w \<in> conc {w. c # w \<in> A} (star A)"
  proof
    assume "w \<in> {w. c # w \<in> star A}"
    then have "c # w \<in> star A" by simp
    from star_cons_split [OF this refl] show "w \<in> conc {w. c # w \<in> A} (star A)"
      by (auto simp: conc_def)
  next
    assume "w \<in> conc {w. c # w \<in> A} (star A)"
    then obtain u v where "w = u @ v" "c # u \<in> A" "v \<in> star A"
      by (auto simp: conc_def)
    then have "(c # u) @ v \<in> star A" by (blast intro: star_step)
    with \<open>w = u @ v\<close> show "w \<in> {w. c # w \<in> star A}" by simp
  qed
qed

lemma lang_deriv: "lang (deriv c r) = {w. c # w \<in> lang r}"
proof (induction r)
  case (Seq r s)
  then show ?case by (simp add: tail_conc nullable_lang)
next
  case (Star r)
  then show ?case by (simp add: tail_star)
qed (auto simp: chars_def)

lemma Match_lang: "Match r b \<longleftrightarrow> b \<in> lang r"
  by (induction b arbitrary: r) (simp_all add: nullable_lang lang_deriv)


section \<open>Evaluating the model on concrete inputs\<close>

lemmas pattern_defs = fmtImplicitInt_def fmtExplicitInt_def fmtSymbolicMatch_def symbolicClause_def
  fmtBasicSingle_def fmtBasicTriple_def fmtFull_def rwxGroup_def Opt_def Plus_def Rep1to3_def
  Rep2up_def Rep3up_def space_class_def octal_class_def

lemmas parse_defs = ParseUint_def basePrefix_def digitVal_def byte_def lower_def underscoreOK_def

section \<open>The receiver\<close>

lemma octal_error_keeps_receiver:
  "fromImplicit p b = Return (Some e) q \<Longrightarrow> q = p"
  "fromExplicit p b = Return (Some e) q \<Longrightarrow> q = p"
  by (auto simp: fromImplicit_def fromExplicit_def split: prod.splits option.splits)

lemma decoders_no_error:
  "fromSymbolic p b \<noteq> Return (Some e) q"
  "fromBasicSingle p b \<noteq> Return (Some e) q"
  "fromBasicTriple p b \<noteq> Return (Some e) q"
  "fromFull p b \<noteq> Return (Some e) q"
  by (auto simp: fromSymbolic_def fromBasicSingle_def fromBasicTriple_def fromFull_def
      split: option.splits)

lemma decoders_ignore_receiver:
  "fromSymbolic p b = fromSymbolic q b"
  "fromBasicSingle p b = fromBasicSingle q b"
  "fromBasicTriple p b = fromBasicTriple q b"
  "fromFull p b = fromFull q b"
  by (simp_all add: fromSymbolic_def fromBasicSingle_def fromBasicTriple_def fromFull_def)

lemma octal_receiver_cases:
  "(case fromImplicit p b of
      Panic \<Rightarrow> False
    | Return None v \<Rightarrow> fromImplicit q b = Return None v
    | Return (Some e) p' \<Rightarrow> p' = p \<and> fromImplicit q b = Return (Some e) q)"
  "(case fromExplicit p b of
      Panic \<Rightarrow> False
    | Return None v \<Rightarrow> fromExplicit q b = Return None v
    | Return (Some e) p' \<Rightarrow> p' = p \<and> fromExplicit q b = Return (Some e) q)"
  by (auto simp: fromImplicit_def fromExplicit_def split: prod.splits option.splits)

text \<open>
  Claim C5. Whenever \<^verbatim>\<open>UnmarshalText\<close> returns an error, the receiver holds the value it held
  before the call, for every input and every prior value: the two octal decoders assign
  only after \<^verbatim>\<open>ParseUint\<close> succeeded, the other four decoders return no error, and the
  unrecognized-syntax branch assigns nothing.
\<close>

theorem unmarshal_failure_keeps_receiver:
  "UnmarshalText p b = Return (Some e) q \<Longrightarrow> q = p"
  by (auto simp: UnmarshalText_def decoders_no_error dest: octal_error_keeps_receiver
      split: if_splits)

theorem unmarshal_failure_keeps_receiver_witness:
  "UnmarshalText 420 ''47777777777'' = Return (Some (ErrImplicitOctal ErrRange)) 420
   \<and> (420 :: Perm) = 420"
proof -
  have h: "UnmarshalText 420 ''47777777777'' = Return (Some (ErrImplicitOctal ErrRange)) 420"
    by (simp add: UnmarshalText_def pattern_defs fromImplicit_def parse_defs)
  with unmarshal_failure_keeps_receiver [OF h] show ?thesis by simp
qed

text \<open>
  Claim C10. The outcome of \<^verbatim>\<open>UnmarshalText\<close> depends on the input bytes only. For any two
  prior receiver values \<open>p\<close> and \<open>q\<close>: if the call on \<open>p\<close> succeeds with \<open>v\<close>, so does the call
  on \<open>q\<close>, with the same \<open>v\<close>; if it returns the error \<open>e\<close> (leaving \<open>p\<close>), the call on \<open>q\<close>
  returns the same \<open>e\<close> (leaving \<open>q\<close>); if it panics, so does the other.
\<close>

theorem unmarshal_independent_of_receiver:
  "(case UnmarshalText p b of
      Panic \<Rightarrow> UnmarshalText q b = Panic
    | Return None v \<Rightarrow> UnmarshalText q b = Return None v
    | Return (Some e) p' \<Rightarrow> p' = p \<and> UnmarshalText q b = Return (Some e) q)"
proof -
  consider (imp) "Match fmtImplicitInt b"
    | (exp) "\<not> Match fmtImplicitInt b" "Match fmtExplicitInt b"
    | (other) "\<not> Match fmtImplicitInt b" "\<not> Match fmtExplicitInt b"
    by blast
  then show ?thesis
  proof cases
    case imp
    then have "UnmarshalText p b = fromImplicit p b" "UnmarshalText q b = fromImplicit q b"
      by (simp_all add: UnmarshalText_def)
    then show ?thesis using octal_receiver_cases(1) [where p = p and q = q and b = b]
      by (auto split: outcome.splits option.splits)
  next
    case exp
    then have "UnmarshalText p b = fromExplicit p b" "UnmarshalText q b = fromExplicit q b"
      by (simp_all add: UnmarshalText_def)
    then show ?thesis using octal_receiver_cases(2) [where p = p and q = q and b = b]
      by (auto split: outcome.splits option.splits)
  next
    case other
    have "UnmarshalText q b = (if UnmarshalText p b = Return (Some ErrUnrecognized) p
             then Return (Some ErrUnrecognized) q else UnmarshalText p b)"
      using other decoders_no_error [of p b ErrUnrecognized p]
      by (simp add: UnmarshalText_def decoders_ignore_receiver [where p = p and q = q])
    moreover have "UnmarshalText p b = Return (Some e) p' \<Longrightarrow> e = ErrUnrecognized \<and> p' = p"
      for e p'
      using other by (auto simp: UnmarshalText_def decoders_no_error split: if_splits)
    ultimately show ?thesis
      by (auto split: outcome.splits option.splits)
  qed
qed

theorem unmarshal_independent_of_receiver_witness:
  "UnmarshalText 0 ''0o644'' = Return None 420 \<and> UnmarshalText 73 ''0o644'' = Return None 420"
proof -
  have h: "UnmarshalText 0 ''0o644'' = Return None 420"
    by (simp add: UnmarshalText_def pattern_defs fromExplicit_def parse_defs)
  with unmarshal_independent_of_receiver [where p = 0 and q = 73 and b = "''0o644''"]
  show ?thesis by simp
qed

section \<open>The six patterns as sets of strings\<close>

lemma conc_empty [simp]: "conc {} B = {}" "conc A {} = {}"
  by (auto simp: conc_def)

lemma conc_unit [simp]: "conc {[]} B = B" "conc A {[]} = A"
  by (auto simp: conc_def)

lemma conc_Un_left: "conc (A \<union> B) C = conc A C \<union> conc B C"
  by (auto simp: conc_def)

lemma mem_conc_chars:
  "b \<in> conc (chars cs) L \<longleftrightarrow> (\<exists>c w. b = c # w \<and> c \<in> set cs \<and> w \<in> L)"
proof
  assume "b \<in> conc (chars cs) L"
  then show "\<exists>c w. b = c # w \<and> c \<in> set cs \<and> w \<in> L"
    by (auto simp: conc_def chars_def)
next
  assume "\<exists>c w. b = c # w \<and> c \<in> set cs \<and> w \<in> L"
  then obtain c w where "b = [c] @ w" "[c] \<in> chars cs" "w \<in> L"
    by (auto simp: chars_def)
  then show "b \<in> conc (chars cs) L"
    unfolding conc_def by blast
qed

lemma lang_Opt: "lang (Opt r) = {[]} \<union> lang r"
  by (auto simp: Opt_def)

lemma star_chars: "star (chars cs) = {w. set w \<subseteq> set cs}"
proof (rule set_eqI, rule iffI)
  fix w
  assume "w \<in> star (chars cs)"
  then show "w \<in> {w. set w \<subseteq> set cs}"
    by (induction rule: star.induct) (auto simp: chars_def)
next
  fix w
  assume "w \<in> {w. set w \<subseteq> set cs}"
  then have "set w \<subseteq> set cs" by simp
  then show "w \<in> star (chars cs)"
  proof (induction w)
    case Nil
    show ?case by (rule star_empty)
  next
    case (Cons c w)
    then have "[c] \<in> chars cs" "w \<in> star (chars cs)" by (auto simp: chars_def)
    then have "[c] @ w \<in> star (chars cs)" by (rule star_step)
    then show ?case by simp
  qed
qed

lemma implicit_iff:
  "Match fmtImplicitInt b \<longleftrightarrow>
     (\<exists>c d1 d2 w. b = c # d1 # d2 # w \<and> c \<in> set ''1234567'' \<and> d1 \<in> set octal_class
        \<and> d2 \<in> set octal_class \<and> set w \<subseteq> set octal_class)"
  unfolding Match_lang fmtImplicitInt_def Rep2up_def lang.simps mem_conc_chars star_chars
    mem_Collect_eq
  by blast

lemma explicit_tail:
  "v \<in> lang (Rep3up (Cls octal_class)) \<longleftrightarrow>
     (\<exists>d1 d2 d3 w. v = d1 # d2 # d3 # w \<and> d1 \<in> set octal_class \<and> d2 \<in> set octal_class
        \<and> d3 \<in> set octal_class \<and> set w \<subseteq> set octal_class)"
  unfolding Rep3up_def lang.simps mem_conc_chars star_chars mem_Collect_eq
  by blast

lemma explicit_iff:
  "Match fmtExplicitInt b \<longleftrightarrow>
     (\<exists>v. (b = CHR ''0'' # v \<or> b = CHR ''0'' # CHR ''o'' # v) \<and> v \<in> lang (Rep3up (Cls octal_class)))"
  unfolding Match_lang fmtExplicitInt_def lang.simps(5)[of "Cls _"] lang.simps(5)[of "Opt _"]
    lang.simps(3) lang_Opt conc_Un_left conc_unit Un_iff mem_conc_chars 
  by (simp only: list.set singleton_iff empty_iff insert_iff simp_thms) blast


lemma conc_intro: "u \<in> A \<Longrightarrow> v \<in> B \<Longrightarrow> u @ v \<in> conc A B"
  unfolding conc_def by blast

lemma conc_elim: "b \<in> conc A B \<Longrightarrow> (\<And>u v. b = u @ v \<Longrightarrow> u \<in> A \<Longrightarrow> v \<in> B \<Longrightarrow> P) \<Longrightarrow> P"
  unfolding conc_def by blast

lemma rwxGroup_iff:
  "Match rwxGroup g \<longleftrightarrow>
     (\<exists>c0 c1 c2. g = [c0, c1, c2] \<and> c0 \<in> set ''r-'' \<and> c1 \<in> set ''w-'' \<and> c2 \<in> set ''x-'')"
proof -
  have alt: "lang (Alt (Cls [x]) (Cls [y])) = chars [x, y]" for x y
    by (auto simp: chars_def)
  have last: "v \<in> chars cs \<longleftrightarrow> (\<exists>c. v = [c] \<and> c \<in> set cs)" for v cs
    by (auto simp: chars_def)
  show ?thesis
    unfolding Match_lang rwxGroup_def lang.simps(5) alt mem_conc_chars last
    by blast
qed

lemma rwxGroup_length: "Match rwxGroup g \<Longrightarrow> length g = 3"
proof -
  assume "Match rwxGroup g"
  then obtain c0 c1 c2 where "g = [c0, c1, c2]"
    unfolding rwxGroup_iff by blast
  then show ?thesis by simp
qed

lemma basicSingle_iff:
  "Match fmtBasicSingle b \<longleftrightarrow>
     (\<exists>c0 c1 c2. b = [c0, c1, c2] \<and> c0 \<in> set ''r-'' \<and> c1 \<in> set ''w-'' \<and> c2 \<in> set ''x-'')"
  unfolding fmtBasicSingle_def by (rule rwxGroup_iff)

lemma basicTriple_iff:
  "Match fmtBasicTriple b \<longleftrightarrow>
     (\<exists>g1 g2 g3. b = g1 @ g2 @ g3 \<and> Match rwxGroup g1 \<and> Match rwxGroup g2 \<and> Match rwxGroup g3)"
  unfolding Match_lang fmtBasicTriple_def lang.simps(5) conc_def by blast

lemma basicTriple_length: "Match fmtBasicTriple b \<Longrightarrow> length b = 9"
proof -
  assume "Match fmtBasicTriple b"
  then obtain g1 g2 g3 where "b = g1 @ g2 @ g3" "Match rwxGroup g1" "Match rwxGroup g2"
      "Match rwxGroup g3"
    unfolding basicTriple_iff by blast
  then show ?thesis
    using rwxGroup_length [of g1] rwxGroup_length [of g2] rwxGroup_length [of g3] by simp
qed

lemma rwxGroup_chars: "Match rwxGroup g \<Longrightarrow> c \<in> set g \<Longrightarrow> c \<in> set ''rwx-''"
  unfolding rwxGroup_iff by (elim exE conjE) auto

lemma basicTriple_chars: "Match fmtBasicTriple b \<Longrightarrow> c \<in> set b \<Longrightarrow> c \<in> set ''rwx-''"
proof -
  assume "Match fmtBasicTriple b" and c: "c \<in> set b"
  then obtain g1 g2 g3 where b: "b = g1 @ g2 @ g3" and g: "Match rwxGroup g1" "Match rwxGroup g2"
      "Match rwxGroup g3"
    unfolding basicTriple_iff by blast
  from c b have "c \<in> set g1 \<or> c \<in> set g2 \<or> c \<in> set g3" by simp
  with g show ?thesis by (blast intro: rwxGroup_chars)
qed

lemma chars_single: "chars [c] = {[c]}"
  by (auto simp: chars_def)

lemma full_iff:
  "Match fmtFull b \<longleftrightarrow>
     (\<exists>pre t. b = pre @ t \<and> (pre = ''-'' \<or> set pre \<subseteq> set ''dalTLDpSugct?'')
        \<and> Match fmtBasicTriple t)"
proof -
  have pre: "pre \<in> lang (Alt (Cls ''-'') (Star (Cls cs))) \<longleftrightarrow> pre = ''-'' \<or> set pre \<subseteq> set cs"
    for cs pre
    unfolding lang.simps star_chars chars_single by blast
  have "b \<in> lang fmtFull \<longleftrightarrow>
     (\<exists>pre t. b = pre @ t \<and> pre \<in> lang (Alt (Cls ''-'') (Star (Cls ''dalTLDpSugct?'')))
        \<and> t \<in> lang fmtBasicTriple)"
    unfolding fmtFull_def lang.simps(5) conc_def by blast
  then show ?thesis
    unfolding Match_lang pre .
qed

lemma rep1to3_iff:
  "v \<in> lang (Rep1to3 (Cls cs)) \<longleftrightarrow> v \<noteq> [] \<and> length v \<le> 3 \<and> set v \<subseteq> set cs"
proof -
  have last: "v \<in> chars cs \<longleftrightarrow> (\<exists>c. v = [c] \<and> c \<in> set cs)" for v
    by (auto simp: chars_def)
  have "v \<in> lang (Rep1to3 (Cls cs)) \<longleftrightarrow>
          (\<exists>c. c \<in> set cs \<and> v = [c]) \<or> (\<exists>c d. c \<in> set cs \<and> d \<in> set cs \<and> v = [c, d])
          \<or> (\<exists>c d e. c \<in> set cs \<and> d \<in> set cs \<and> e \<in> set cs \<and> v = [c, d, e])"
    unfolding Rep1to3_def lang.simps(5) lang_Opt lang.simps(3) mem_conc_chars Un_iff last
    by (simp only: singleton_iff) blast
  also have "\<dots> \<longleftrightarrow> v \<noteq> [] \<and> length v \<le> 3 \<and> set v \<subseteq> set cs"
  proof (cases v)
    case Nil
    then show ?thesis by simp
  next
    case (Cons a v1)
    note v = this
    show ?thesis
    proof (cases v1)
      case Nil
      with v show ?thesis by auto
    next
      case (Cons b v2)
      note v1 = this
      show ?thesis
      proof (cases v2)
        case Nil
        with v v1 show ?thesis by auto
      next
        case (Cons c v3)
        with v v1 show ?thesis by (cases v3) auto
      qed
    qed
  qed
  finally show ?thesis .
qed

lemma mem_conc: "b \<in> conc A B \<longleftrightarrow> (\<exists>u v. b = u @ v \<and> u \<in> A \<and> v \<in> B)"
  unfolding conc_def by blast

lemma clause_iff:
  "v \<in> lang symbolicClause \<longleftrightarrow>
     (\<exists>a op p w. v = a @ op # p @ w \<and> actorText a \<and> op \<in> set ''-=+'' \<and> permText p \<and> sepText w)"
proof -
  have actor: "a \<in> lang (Alt (Cls ''a'') (Rep1to3 (Cls ''ugo''))) \<longleftrightarrow> actorText a" for a
    unfolding lang.simps(4) Un_iff rep1to3_iff actorText_def lang.simps(3) chars_single by simp
  have sep: "w \<in> lang (Opt (Cls space_class)) \<longleftrightarrow> sepText w" for w
    unfolding lang_Opt sepText_def lang.simps(3) chars_def by blast
  have perm: "p \<in> lang (Rep1to3 (Cls ''rwx'')) \<longleftrightarrow> permText p" for p
    unfolding rep1to3_iff permText_def ..
  have tail: "r' \<in> conc (lang (Rep1to3 (Cls ''rwx''))) (lang (Opt (Cls space_class))) \<longleftrightarrow>
      (\<exists>p w. r' = p @ w \<and> permText p \<and> sepText w)" for r'
    unfolding mem_conc perm sep ..
  have mid: "r \<in> conc (chars ''-=+'') (conc (lang (Rep1to3 (Cls ''rwx''))) (lang (Opt (Cls space_class))))
      \<longleftrightarrow> (\<exists>op p w. r = op # p @ w \<and> op \<in> set ''-=+'' \<and> permText p \<and> sepText w)" for r
    unfolding mem_conc_chars tail by blast
  have "v \<in> lang symbolicClause \<longleftrightarrow>
     (\<exists>a r. v = a @ r \<and> a \<in> lang (Alt (Cls ''a'') (Rep1to3 (Cls ''ugo''))) \<and>
        r \<in> conc (chars ''-=+'') (conc (lang (Rep1to3 (Cls ''rwx''))) (lang (Opt (Cls space_class)))))"
    unfolding symbolicClause_def lang.simps(5) [of "Alt _ _"] lang.simps(5) [of "Cls _"]
      lang.simps(5) [of "Rep1to3 _"] lang.simps(3)
    by (rule mem_conc)
  also have "\<dots> \<longleftrightarrow> (\<exists>a r. v = a @ r \<and> actorText a \<and>
        (\<exists>op p w. r = op # p @ w \<and> op \<in> set ''-=+'' \<and> permText p \<and> sepText w))"
    unfolding actor mid ..
  also have "\<dots> \<longleftrightarrow> (\<exists>a op p w. v = a @ op # p @ w \<and> actorText a \<and> op \<in> set ''-=+'' \<and> permText p \<and> sepText w)"
    by blast
  finally show ?thesis .
qed

lemma symbolic_iff:
  "Match fmtSymbolicMatch b \<longleftrightarrow>
     (\<exists>v w. b = v @ w \<and> v \<in> lang symbolicClause \<and> w \<in> star (lang symbolicClause))"
  unfolding Match_lang fmtSymbolicMatch_def Plus_def lang.simps conc_def by blast

lemma clause_head:
  assumes "v \<in> lang symbolicClause"
  shows "v \<noteq> []" and "hd v \<in> set ''augo''" and "length v \<le> 8"
proof -
  from assms obtain a op p w where v: "v = a @ op # p @ w" and a: "actorText a"
    and p: "permText p" and w: "sepText w"
    unfolding clause_iff by blast
  from a have a': "a \<noteq> []" "hd a \<in> set ''augo''" "length a \<le> 3"
    unfolding actorText_def by (cases a; auto)+
  from v a' show "v \<noteq> []" by simp
  from v a' show "hd v \<in> set ''augo''" by simp
  from p have "length p \<le> 3" unfolding permText_def by simp
  moreover from w have "length w \<le> 1" unfolding sepText_def by auto
  ultimately show "length v \<le> 8" using v a' by simp
qed

lemma symbolic_head: "Match fmtSymbolicMatch b \<Longrightarrow> b \<noteq> [] \<and> hd b \<in> set ''augo''"
proof -
  assume "Match fmtSymbolicMatch b"
  then obtain v w where "b = v @ w" "v \<in> lang symbolicClause"
    unfolding symbolic_iff by blast
  then show ?thesis using clause_head(1,2) [of v] by simp
qed

lemma actorNearEnd_clause: "v \<in> lang symbolicClause \<Longrightarrow> actorNearEnd v"
proof -
  assume v: "v \<in> lang symbolicClause"
  from clause_head [OF v] have "hd v \<in> set v" "hd v \<in> set ''augo''" "take 8 (rev v) = rev v"
    by simp_all
  then show ?thesis unfolding actorNearEnd_def by (metis set_rev)
qed

lemma actorNearEnd_append: "actorNearEnd w \<Longrightarrow> actorNearEnd (v @ w)"
proof -
  assume "actorNearEnd w"
  then obtain c where c: "c \<in> set (take 8 (rev w))" "c \<in> set ''augo''"
    unfolding actorNearEnd_def by blast
  have "set (take 8 (rev w)) \<subseteq> set (take 8 (rev (v @ w)))"
    by (simp add: set_take_subset)
  with c show ?thesis unfolding actorNearEnd_def by blast
qed

lemma actorNearEnd_star:
  "w \<in> star (lang symbolicClause) \<Longrightarrow> w = [] \<or> actorNearEnd w"
proof (induction rule: star.induct)
  case star_empty
  show ?case by simp
next
  case (star_step u v)
  show ?case
  proof (cases "v = []")
    case True
    with star_step.hyps show ?thesis by (simp add: actorNearEnd_clause)
  next
    case False
    with star_step.IH show ?thesis by (simp add: actorNearEnd_append)
  qed
qed

lemma symbolic_actorNearEnd: "Match fmtSymbolicMatch b \<Longrightarrow> actorNearEnd b"
proof -
  assume "Match fmtSymbolicMatch b"
  then obtain v w where b: "b = v @ w" and v: "v \<in> lang symbolicClause"
    and w: "w \<in> star (lang symbolicClause)"
    unfolding symbolic_iff by blast
  from actorNearEnd_star [OF w] show ?thesis
  proof
    assume "w = []"
    with b v show ?thesis by (simp add: actorNearEnd_clause)
  next
    assume "actorNearEnd w"
    with b show ?thesis by (simp add: actorNearEnd_append)
  qed
qed

section \<open>The fixed-width decoders\<close>

lemma rwxGroup_three: "Match rwxGroup g \<Longrightarrow> \<exists>c0 c1 c2. g = [c0, c1, c2]"
  unfolding rwxGroup_iff by blast

lemma basicTriple_nine:
  "Match fmtBasicTriple b \<Longrightarrow> \<exists>c0 c1 c2 c3 c4 c5 c6 c7 c8. b = [c0, c1, c2, c3, c4, c5, c6, c7, c8]"
proof -
  assume "Match fmtBasicTriple b"
  then obtain g1 g2 g3 where b: "b = g1 @ g2 @ g3" and g: "Match rwxGroup g1" "Match rwxGroup g2"
      "Match rwxGroup g3"
    unfolding basicTriple_iff by blast
  from g(1) obtain c0 c1 c2 where g1: "g1 = [c0, c1, c2]"
    using rwxGroup_three by blast
  from g(2) obtain c3 c4 c5 where g2: "g2 = [c3, c4, c5]"
    using rwxGroup_three by blast
  from g(3) obtain c6 c7 c8 where g3: "g3 = [c6, c7, c8]"
    using rwxGroup_three by blast
  from b g1 g2 g3 show ?thesis by simp
qed

lemma at_simps [simp]:
  "at (x # xs) 0 = Some x"
  "at [] n = None"
  "at (x # xs) (Suc n) = at xs n"
  by (simp_all add: at_def)

lemma at_numeral [simp]: "at (x # xs) (numeral k) = at xs (pred_numeral k)"
  by (simp add: at_def numeral_eq_Suc)

lemma fromBasicSingle_on_match:
  "Match fmtBasicSingle b \<Longrightarrow> \<exists>v. fromBasicSingle p b = Return None v"
proof -
  assume "Match fmtBasicSingle b"
  then obtain c0 c1 c2 where "b = [c0, c1, c2]"
    unfolding basicSingle_iff by blast
  then show ?thesis
    by (simp add: fromBasicSingle_def basicSinglePerm_def)
qed

lemma fromBasicTriple_on_match:
  "Match fmtBasicTriple b \<Longrightarrow> \<exists>v. fromBasicTriple p b = Return None v"
proof -
  assume "Match fmtBasicTriple b"
  then obtain c0 c1 c2 c3 c4 c5 c6 c7 c8 where "b = [c0, c1, c2, c3, c4, c5, c6, c7, c8]"
    using basicTriple_nine by blast
  then show ?thesis
    by (simp add: fromBasicTriple_def basicTriplePerm_def)
qed

lemma FindSubmatch_fmtFull_groups:
  assumes "Match fmtFull b"
  shows "\<exists>pre c0 c1 c2 c3 c4 c5 c6 c7 c8.
           b = pre @ [c0, c1, c2, c3, c4, c5, c6, c7, c8]
           \<and> (pre = ''-'' \<or> set pre \<subseteq> set ''dalTLDpSugct?'')
           \<and> Match fmtBasicTriple [c0, c1, c2, c3, c4, c5, c6, c7, c8]
           \<and> FindSubmatch_fmtFull b =
               [b, pre, [c0], [c1], [c2], [c3], [c4], [c5], [c6], [c7], [c8]]"
proof -
  from assms obtain pre t where b: "b = pre @ t"
    and pre: "pre = ''-'' \<or> set pre \<subseteq> set ''dalTLDpSugct?''" and t: "Match fmtBasicTriple t"
    unfolding full_iff by blast
  from t obtain c0 c1 c2 c3 c4 c5 c6 c7 c8 where t9: "t = [c0, c1, c2, c3, c4, c5, c6, c7, c8]"
    using basicTriple_nine by blast
  have "FindSubmatch_fmtFull b = [b, pre, [c0], [c1], [c2], [c3], [c4], [c5], [c6], [c7], [c8]]"
    using assms unfolding FindSubmatch_fmtFull_def b t9 by simp
  with b pre t t9 show ?thesis by blast
qed

lemma fromFull_on_match:
  "Match fmtFull b \<Longrightarrow> \<exists>v. fromFull p b = Return None v"
proof -
  assume "Match fmtFull b"
  from FindSubmatch_fmtFull_groups [OF this]
  obtain pre c0 c1 c2 c3 c4 c5 c6 c7 c8 where
    "FindSubmatch_fmtFull b = [b, pre, [c0], [c1], [c2], [c3], [c4], [c5], [c6], [c7], [c8]]"
    by blast
  then show ?thesis
    by (simp add: fromFull_def fullPerm_def)
qed

text \<open>
  Claim C9. When the input matched the classifier pattern that \<^verbatim>\<open>UnmarshalText\<close> tests before
  calling it, each of \<^verbatim>\<open>fromBasicSingle\<close> (bytes 0 to 2), \<^verbatim>\<open>fromBasicTriple\<close> (bytes 0 to 8)
  and \<^verbatim>\<open>fromFull\<close> (groups 1 to 10 of the second match, and byte 0 of groups 2 to 10) reads
  in bounds only: it does not panic and it returns a nil error with a value.
\<close>

theorem fixed_width_decoders_total_on_match:
  "(Match fmtBasicSingle b \<longrightarrow> (\<exists>v. fromBasicSingle p b = Return None v))
   \<and> (Match fmtBasicTriple b \<longrightarrow> (\<exists>v. fromBasicTriple p b = Return None v))
   \<and> (Match fmtFull b \<longrightarrow> (\<exists>v. fromFull p b = Return None v))"
  using fromBasicSingle_on_match [of b p] fromBasicTriple_on_match [of b p]
    fromFull_on_match [of b p]
  by blast

theorem fixed_width_decoders_total_on_match_witness:
  "Match fmtBasicSingle ''r-x'' \<and> (\<exists>v. fromBasicSingle 0 ''r-x'' = Return None v)
   \<and> Match fmtBasicTriple ''rwxr-x---'' \<and> (\<exists>v. fromBasicTriple 0 ''rwxr-x---'' = Return None v)
   \<and> Match fmtFull ''drwxr-xr-x'' \<and> (\<exists>v. fromFull 0 ''drwxr-xr-x'' = Return None v)"
proof -
  have m: "Match fmtBasicSingle ''r-x''" "Match fmtBasicTriple ''rwxr-x---''"
    "Match fmtFull ''drwxr-xr-x''"
    by (simp_all add: pattern_defs)
  with fixed_width_decoders_total_on_match [of "''r-x''" 0]
    fixed_width_decoders_total_on_match [of "''rwxr-x---''" 0]
    fixed_width_decoders_total_on_match [of "''drwxr-xr-x''" 0]
  show ?thesis by blast
qed

section \<open>Bits set by the decoders\<close>

lemmas mode_defs = ModeDir_def ModeAppend_def ModeExclusive_def ModeTemporary_def ModeSymlink_def
  ModeDevice_def ModeNamedPipe_def ModeSocket_def ModeSetuid_def ModeSetgid_def
  ModeCharDevice_def ModeSticky_def ModeIrregular_def

lemma o777_mask: "(511 :: Perm) = mask 9"
  by (simp add: mask_eq_exp_minus_1)

lemma bit_o777: "bit (511 :: Perm) n \<longleftrightarrow> n < 9"
  unfolding o777_mask by (auto simp: bit_mask_iff)

lemma bit_Perm_bound: "bit v n \<Longrightarrow> n < 32" for v :: Perm
  using bit_imp_le_length [of v n] by simp

lemma within_perm_iff: "v AND NOT 511 = 0 \<longleftrightarrow> (\<forall>n. bit v n \<longrightarrow> n < 9)" for v :: Perm
proof -
  have "v AND NOT (mask 9) = 0 \<longleftrightarrow> (\<forall>n. bit v n \<longrightarrow> n < 9)"
    by (auto simp: bit_eq_iff bit_and_iff bit_not_iff bit_mask_iff dest: bit_Perm_bound)
  then show ?thesis unfolding o777_mask .
qed

lemma specialBits_eq: "specialBits = NOT (mask 19)"
  unfolding specialBits_def mode_defs 
  by (simp add: mask_eq_exp_minus_1)

lemma bit_specialBits: "bit specialBits n \<longleftrightarrow> 19 \<le> n \<and> n < 32"
  unfolding specialBits_eq by (auto simp: bit_not_iff bit_mask_iff)

lemma bit_enumeratedBits: "bit enumeratedBits n \<longleftrightarrow> n < 9 \<or> (19 \<le> n \<and> n < 32)"
  unfolding enumeratedBits_def ModePerm_def bit_or_iff bit_o777 bit_specialBits by auto

lemma within_enumerated_iff:
  "v AND NOT enumeratedBits = 0 \<longleftrightarrow> (\<forall>n. bit v n \<longrightarrow> n < 9 \<or> 19 \<le> n)"
  by (auto simp: bit_eq_iff bit_and_iff bit_not_iff bit_enumeratedBits dest: bit_Perm_bound)


lemma or_within: "a AND NOT m = 0 \<Longrightarrow> b AND NOT m = 0 \<Longrightarrow> (a OR b) AND NOT m = 0"
  for a b m :: Perm
  by (simp add: bit.conj_disj_distrib2)

lemma and_within: "a AND NOT m = 0 \<Longrightarrow> (a AND b) AND NOT m = 0" for a b m :: Perm
  by (metis and.assoc and.commute and_zero_eq)

lemma and_within2: "b AND NOT m = 0 \<Longrightarrow> (a AND b) AND NOT m = 0" for a b m :: Perm
  by (metis and.assoc and_zero_eq)

lemma const_within:
  "(511 :: Perm) AND NOT 511 = 0" "(448 :: Perm) AND NOT 511 = 0" "(56 :: Perm) AND NOT 511 = 0"
  "(7 :: Perm) AND NOT 511 = 0" "(0 :: Perm) AND NOT 511 = 0"
  by simp_all

lemma actorSym_within: "actor AND NOT 511 = 0 \<Longrightarrow> actorSym actor c AND NOT 511 = 0"
  unfolding actorSym_def
  by (simp only: or_within const_within simp_thms split: if_split)

lemma foldl_actorSym_within:
  "actor AND NOT 511 = 0 \<Longrightarrow> foldl actorSym actor e AND NOT 511 = 0"
proof (induction e arbitrary: actor)
  case Nil
  then show ?case by (simp only: foldl_Nil)
next
  case (Cons c e)
  from Cons.prems have "actorSym actor c AND NOT 511 = 0" by (rule actorSym_within)
  then have "foldl actorSym (actorSym actor c) e AND NOT 511 = 0" by (rule Cons.IH)
  then show ?case by (simp only: foldl_Cons)
qed

lemma applyOp_within:
  "actor AND NOT 511 = 0 \<Longrightarrow> perm AND NOT 511 = 0
     \<Longrightarrow> applyOp op actor actorperm perm AND NOT 511 = 0"
  unfolding applyOp_def
  by (simp only: or_within and_within simp_thms split: if_split)

lemma symbolicLoop_within:
  "symbolicLoop perm ms = Some v \<Longrightarrow> perm AND NOT 511 = 0 \<Longrightarrow> v AND NOT 511 = 0"
proof (induction ms arbitrary: perm)
  case Nil
  then show ?case by simp
next
  case (Cons m ms)
  from Cons.prems(1) obtain e1 e3 op where
    "symbolicLoop (applyOp op (foldl actorSym 0 e1) (foldl permSym 0 e3) perm) ms = Some v"
    by (auto simp: Let_def split: Option.bind_splits)
  moreover have "applyOp op (foldl actorSym 0 e1) (foldl permSym 0 e3) perm AND NOT 511 = 0"
    using Cons.prems(2) by (intro applyOp_within foldl_actorSym_within const_within)
  ultimately show ?case by (rule Cons.IH)
qed

lemma firstSome_mem: "firstSome xs = Some y \<Longrightarrow> Some y \<in> set xs"
  by (induction xs rule: firstSome.induct) auto

lemma extractAt_shape:
  "extractAt s = Some (g1, g2, g3) \<Longrightarrow> \<exists>op. g2 = [op]"
  unfolding extractAt_def
  by (auto dest!: firstSome_mem split: list.splits if_splits)

lemma FindAllSubmatch_shape: "m \<in> set (FindAllSubmatch b) \<Longrightarrow> matchShape m"
proof (induction b arbitrary: m rule: FindAllSubmatch.induct)
  case 1
  then show ?case by simp
next
  case (2 c cs)
  show ?case
  proof (cases "extractAt (c # cs)")
    case None
    with 2 show ?thesis by simp
  next
    case (Some g)
    obtain g1 g2 g3 where g: "g = (g1, g2, g3)" by (cases g) auto
    with Some obtain op where op: "g2 = [op]" using extractAt_shape by blast
    from "2.prems" Some g have
      "m = [g1 @ g2 @ g3, g1, g2, g3]
       \<or> m \<in> set (FindAllSubmatch (drop (length (g1 @ g2 @ g3)) (c # cs)))"
      by simp
    then show ?thesis
    proof
      assume "m = [g1 @ g2 @ g3, g1, g2, g3]"
      with op show ?thesis unfolding matchShape_def by blast
    next
      assume "m \<in> set (FindAllSubmatch (drop (length (g1 @ g2 @ g3)) (c # cs)))"
      with "2.IH"(2) [OF Some g [symmetric] refl] show ?thesis by blast
    qed
  qed
qed

lemma symbolicLoop_total:
  "(\<forall>m \<in> set ms. matchShape m) \<Longrightarrow> \<exists>v. symbolicLoop perm ms = Some v"
proof (induction ms arbitrary: perm)
  case Nil
  show ?case by simp
next
  case (Cons m ms)
  then obtain g1 op g3 where m: "m = [g1 @ [op] @ g3, g1, [op], g3]"
    unfolding matchShape_def by auto
  from Cons have "\<exists>v. symbolicLoop (applyOp op (foldl actorSym 0 g1) (foldl permSym 0 g3) perm) ms = Some v"
    by simp
  then show ?case unfolding m by (simp add: Let_def)
qed

lemma fromSymbolic_returns:
  "\<exists>v. fromSymbolic p b = Return None v \<and> v AND NOT 511 = 0"
proof -
  obtain v where v: "symbolicLoop 0 (FindAllSubmatch b) = Some v"
    using symbolicLoop_total [of "FindAllSubmatch b" 0] FindAllSubmatch_shape by blast
  with symbolicLoop_within [OF v] show ?thesis
    by (simp add: fromSymbolic_def)
qed


lemma pattern_heads:
  "Match fmtImplicitInt b \<Longrightarrow> b \<noteq> [] \<and> hd b \<in> set ''1234567''"
  "Match fmtExplicitInt b \<Longrightarrow> b \<noteq> [] \<and> hd b = CHR ''0''"
  "Match fmtBasicSingle b \<Longrightarrow> b \<noteq> [] \<and> hd b \<in> set ''r-''"
  "Match fmtBasicTriple b \<Longrightarrow> b \<noteq> [] \<and> hd b \<in> set ''r-''"
proof -
  show "Match fmtImplicitInt b \<Longrightarrow> b \<noteq> [] \<and> hd b \<in> set ''1234567''"
    unfolding implicit_iff by (elim exE conjE) simp
  show "Match fmtExplicitInt b \<Longrightarrow> b \<noteq> [] \<and> hd b = CHR ''0''"
    unfolding explicit_iff by (elim exE conjE disjE) simp_all
  show "Match fmtBasicSingle b \<Longrightarrow> b \<noteq> [] \<and> hd b \<in> set ''r-''"
    unfolding basicSingle_iff by (elim exE conjE) simp
  show "Match fmtBasicTriple b \<Longrightarrow> b \<noteq> [] \<and> hd b \<in> set ''r-''"
  proof -
    assume "Match fmtBasicTriple b"
    then obtain g1 g2 g3 where "b = g1 @ g2 @ g3" "Match rwxGroup g1"
      unfolding basicTriple_iff by blast
    then show ?thesis unfolding rwxGroup_iff by (elim exE conjE) simp
  qed
qed

lemma symbolic_excludes:
  assumes "Match fmtSymbolicMatch b"
  shows "\<not> Match fmtImplicitInt b" "\<not> Match fmtExplicitInt b"
    "\<not> Match fmtBasicSingle b" "\<not> Match fmtBasicTriple b"
  using symbolic_head [OF assms] pattern_heads [of b] by auto

lemma UnmarshalText_symbolic:
  "Match fmtSymbolicMatch b \<Longrightarrow> UnmarshalText p b = fromSymbolic p b"
  by (simp add: UnmarshalText_def symbolic_excludes)

text \<open>
  Claim C8. An input of the symbolic grammar parses to a value with no bit outside the nine
  permission bits: \<^verbatim>\<open>UnmarshalText\<close> hands it to \<^verbatim>\<open>fromSymbolic\<close>, which returns a nil error
  and a value whose conjunction with the complement of 0777 is zero.
\<close>

theorem symbolic_sets_permission_bits_only:
  "Match fmtSymbolicMatch b \<Longrightarrow>
     \<exists>v. UnmarshalText p b = Return None v \<and> fromSymbolic p b = Return None v
         \<and> v AND NOT o777 = 0"
  using fromSymbolic_returns [of p b] by (auto simp: UnmarshalText_symbolic)


lemmas symbolic_defs = fromSymbolic_def extractAt_def actorTries_def permTries_def actorSym_def
  permSym_def applyOp_def

theorem symbolic_sets_permission_bits_only_witness:
  "Match fmtSymbolicMatch ''a=rwx o-w''
   \<and> UnmarshalText 0 ''a=rwx o-w'' = Return None 509
   \<and> fromSymbolic 0 ''a=rwx o-w'' = Return None 509
   \<and> (509 :: Perm) AND NOT o777 = 0"
proof -
  have m: "Match fmtSymbolicMatch ''a=rwx o-w''"
    by (simp add: pattern_defs)
  have e: "fromSymbolic 0 ''a=rwx o-w'' = Return None 509"
    by (simp add: symbolic_defs)
  from symbolic_sets_permission_bits_only [OF m, of 0] e m show ?thesis
    by auto
qed

lemma perm_within_enumerated: "v AND NOT 511 = 0 \<Longrightarrow> v AND NOT enumeratedBits = 0"
  unfolding within_perm_iff within_enumerated_iff by blast

lemma bit_single: "bit (push_bit k 1 :: Perm) n \<longleftrightarrow> n = k \<and> k < 32"
  by (auto simp: bit_exp_iff)

lemma mode_within:
  "ModeDir AND NOT enumeratedBits = 0" "ModeAppend AND NOT enumeratedBits = 0"
  "ModeExclusive AND NOT enumeratedBits = 0" "ModeTemporary AND NOT enumeratedBits = 0"
  "ModeSymlink AND NOT enumeratedBits = 0" "ModeDevice AND NOT enumeratedBits = 0"
  "ModeNamedPipe AND NOT enumeratedBits = 0" "ModeSocket AND NOT enumeratedBits = 0"
  "ModeSetuid AND NOT enumeratedBits = 0" "ModeSetgid AND NOT enumeratedBits = 0"
  "ModeCharDevice AND NOT enumeratedBits = 0" "ModeSticky AND NOT enumeratedBits = 0"
  "ModeIrregular AND NOT enumeratedBits = 0"
  unfolding within_enumerated_iff mode_defs bit_single by simp_all

lemma low_const_within:
  "(292 :: Perm) AND NOT 511 = 0" "(146 :: Perm) AND NOT 511 = 0" "(73 :: Perm) AND NOT 511 = 0"
  "(256 :: Perm) AND NOT 511 = 0" "(128 :: Perm) AND NOT 511 = 0" "(64 :: Perm) AND NOT 511 = 0"
  "(32 :: Perm) AND NOT 511 = 0" "(16 :: Perm) AND NOT 511 = 0" "(8 :: Perm) AND NOT 511 = 0"
  "(4 :: Perm) AND NOT 511 = 0" "(2 :: Perm) AND NOT 511 = 0" "(1 :: Perm) AND NOT 511 = 0"
  by simp_all

lemma orIf_within:
  "perm AND NOT m = 0 \<Longrightarrow> bits AND NOT m = 0 \<Longrightarrow> orIf c bits perm AND NOT m = 0"
  unfolding orIf_def by (simp only: or_within split: if_split) simp

lemma basicSinglePerm_within: "basicSinglePerm b = Some v \<Longrightarrow> v AND NOT 511 = 0"
proof -
  assume "basicSinglePerm b = Some v"
  then obtain b0 b1 b2 where
    "v = orIf (b2 = CHR ''x'') 73 (orIf (b1 = CHR ''w'') 146 (orIf (b0 = CHR ''r'') 292 0))"
    unfolding basicSinglePerm_def by (auto simp: Let_def split: Option.bind_splits)
  then show ?thesis
    by (simp only: orIf_within low_const_within const_within)
qed

lemma basicTriplePerm_within: "basicTriplePerm b = Some v \<Longrightarrow> v AND NOT 511 = 0"
proof -
  assume "basicTriplePerm b = Some v"
  then obtain b0 b1 b2 b3 b4 b5 b6 b7 b8 where
    "v = orIf (b8 = CHR ''x'') 1 (orIf (b7 = CHR ''w'') 2 (orIf (b6 = CHR ''r'') 4
          (orIf (b5 = CHR ''x'') 8 (orIf (b4 = CHR ''w'') 16 (orIf (b3 = CHR ''r'') 32
          (orIf (b2 = CHR ''x'') 64 (orIf (b1 = CHR ''w'') 128 (orIf (b0 = CHR ''r'') 256 0))))))))"
    unfolding basicTriplePerm_def by (auto simp: Let_def split: Option.bind_splits)
  then show ?thesis
    by (simp only: orIf_within low_const_within const_within)
qed

lemma fullAttr_within:
  "perm AND NOT enumeratedBits = 0 \<Longrightarrow> fullAttr perm c AND NOT enumeratedBits = 0"
  unfolding fullAttr_def
  by (simp only: or_within mode_within simp_thms split: if_split)

lemma foldl_fullAttr_within:
  "perm AND NOT enumeratedBits = 0 \<Longrightarrow> foldl fullAttr perm e AND NOT enumeratedBits = 0"
proof (induction e arbitrary: perm)
  case Nil
  then show ?case by (simp only: foldl_Nil)
next
  case (Cons c e)
  from Cons.prems have "fullAttr perm c AND NOT enumeratedBits = 0" by (rule fullAttr_within)
  then have "foldl fullAttr (fullAttr perm c) e AND NOT enumeratedBits = 0" by (rule Cons.IH)
  then show ?case by (simp only: foldl_Cons)
qed

lemma fullPerm_within: "fullPerm m = Some v \<Longrightarrow> v AND NOT enumeratedBits = 0"
proof -
  assume "fullPerm m = Some v"
  then obtain m1 b0 b1 b2 b3 b4 b5 b6 b7 b8 where
    "v = orIf (b8 = CHR ''x'') 1 (orIf (b7 = CHR ''w'') 2 (orIf (b6 = CHR ''r'') 4
          (orIf (b5 = CHR ''x'') 8 (orIf (b4 = CHR ''w'') 16 (orIf (b3 = CHR ''r'') 32
          (orIf (b2 = CHR ''x'') 64 (orIf (b1 = CHR ''w'') 128 (orIf (b0 = CHR ''r'') 256
          (foldl fullAttr 0 m1)))))))))"
    unfolding fullPerm_def by (auto simp: Let_def split: Option.bind_splits)
  moreover have "foldl fullAttr 0 m1 AND NOT enumeratedBits = 0"
    by (rule foldl_fullAttr_within) simp
  ultimately show ?thesis
    by (simp only: orIf_within low_const_within [THEN perm_within_enumerated])
qed

text \<open>
  Claim C1, as the code has it. A successful parse of an input that is not in one of the two
  octal forms (so of the basic single, basic triple, symbolic or full form) yields a value
  with bits only among the nine permission bits and the thirteen enumerated mode bits. The
  octal forms yield the number the digits denote, whatever bits that has.
\<close>

theorem non_octal_parse_sets_enumerated_bits_only:
  "\<not> Match fmtImplicitInt b \<Longrightarrow> \<not> Match fmtExplicitInt b
     \<Longrightarrow> UnmarshalText p b = Return None v \<Longrightarrow> v AND NOT enumeratedBits = 0"
proof -
  assume no: "\<not> Match fmtImplicitInt b" "\<not> Match fmtExplicitInt b"
    and ok: "UnmarshalText p b = Return None v"
  from no ok consider
      (single) "fromBasicSingle p b = Return None v"
    | (triple) "fromBasicTriple p b = Return None v"
    | (symbolic) "fromSymbolic p b = Return None v"
    | (full) "fromFull p b = Return None v"
    by (auto simp: UnmarshalText_def split: if_splits)
  then show ?thesis
  proof cases
    case single
    then have "basicSinglePerm b = Some v"
      by (auto simp: fromBasicSingle_def split: option.splits)
    then show ?thesis by (intro perm_within_enumerated basicSinglePerm_within)
  next
    case triple
    then have "basicTriplePerm b = Some v"
      by (auto simp: fromBasicTriple_def split: option.splits)
    then show ?thesis by (intro perm_within_enumerated basicTriplePerm_within)
  next
    case symbolic
    with fromSymbolic_returns [of p b] have "v AND NOT 511 = 0" by auto
    then show ?thesis by (rule perm_within_enumerated)
  next
    case full
    then have "fullPerm (FindSubmatch_fmtFull b) = Some v"
      by (auto simp: fromFull_def split: option.splits)
    then show ?thesis by (rule fullPerm_within)
  qed
qed

theorem non_octal_parse_sets_enumerated_bits_only_witness:
  "\<not> Match fmtImplicitInt ''ugrwxr-xr-x'' \<and> \<not> Match fmtExplicitInt ''ugrwxr-xr-x''
   \<and> UnmarshalText 0 ''ugrwxr-xr-x'' = Return None 12583405
   \<and> (12583405 :: Perm) AND NOT enumeratedBits = 0"
proof -
  have n: "\<not> Match fmtImplicitInt ''ugrwxr-xr-x''" "\<not> Match fmtExplicitInt ''ugrwxr-xr-x''"
    by (simp_all add: pattern_defs)
  have u: "UnmarshalText 0 ''ugrwxr-xr-x'' = Return None 12583405"
    by (simp add: UnmarshalText_def pattern_defs fromFull_def FindSubmatch_fmtFull_def
        fullPerm_def fullAttr_def orIf_def mode_defs)
  from non_octal_parse_sets_enumerated_bits_only [OF n u] n u show ?thesis by simp
qed

text \<open>
  Claim C1 as stated fails on the implicit octal form: \<^verbatim>\<open>7777\<close> parses to 07777, whose
  bits 9, 10 and 11 are none of the enumerated positions.
\<close>

theorem octal_parse_sets_unenumerated_bits:
  "UnmarshalText 0 ''7777'' = Return None 4095 \<and> (4095 :: Perm) AND NOT enumeratedBits \<noteq> 0"
proof -
  have "UnmarshalText 0 ''7777'' = Return None 4095"
    by (simp add: UnmarshalText_def pattern_defs fromImplicit_def parse_defs)
  moreover have "(4095 :: Perm) AND NOT enumeratedBits \<noteq> 0"
    by (simp add: enumeratedBits_def specialBits_def ModePerm_def mode_defs)
  ultimately show ?thesis by simp
qed

section \<open>The octal decoders\<close>

lemma octal_digit: "c \<in> set octal_class \<Longrightarrow> digitVal c = Some (byte c - 48) \<and> byte c - 48 < 8 \<and> c \<noteq> CHR ''_''"
  unfolding octal_class_def digitVal_def byte_def lower_def by auto

lemma foldl_octalStep_mono: "m \<le> foldl octalStep m ds"
proof (induction ds arbitrary: m)
  case Nil
  show ?case by simp
next
  case (Cons c ds)
  have "m \<le> octalStep m c" by (simp add: octalStep_def)
  also have "\<dots> \<le> foldl octalStep (octalStep m c) ds" by (rule Cons.IH)
  finally show ?case by simp
qed

lemma cutoff_eq: "(- 1) div (of_nat 8 :: 64 word) + 1 = 2 ^ 61"
  by simp

lemma maxVal_eq: "(push_bit 32 1 - 1 :: 64 word) = 4294967295"
  by simp

lemma parseLoop_octal:
  "set ds \<subseteq> set octal_class \<Longrightarrow> unat n < 2 ^ 32 \<Longrightarrow>
     parseLoop 8 base0 (2 ^ 61) 4294967295 ds us n =
       (if foldl octalStep (unat n) ds < 2 ^ 32
        then Inr (of_nat (foldl octalStep (unat n) ds), us)
        else Inl (4294967295, Some ErrRange))"
proof (induction ds arbitrary: n)
  case Nil
  then show ?case by simp
next
  case (Cons c ds)
  from Cons.prems(1) have c: "c \<in> set octal_class" and ds: "set ds \<subseteq> set octal_class"
    by simp_all
  define d where "d = byte c - 48"
  from octal_digit [OF c] have dv: "digitVal c = Some d" and d8: "d < 8" and nu: "c \<noteq> CHR ''_''"
    by (simp_all add: d_def)
  have n61: "\<not> (2 ^ 61 \<le> n)"
    using Cons.prems(2) by (simp add: word_le_nat_alt)
  have un': "unat (n * 8) = unat n * 8"
    using Cons.prems(2) by (simp add: unat_word_ariths)
  have und: "unat (of_nat d :: 64 word) = d"
    using d8 by (simp add: unat_of_nat)
  have un1: "unat (n * 8 + of_nat d) = unat n * 8 + d"
    using Cons.prems(2) d8 un' und by (simp add: unat_word_ariths)
  have nolt: "\<not> (n * 8 + of_nat d < n * 8)"
    by (simp add: word_less_nat_alt un1 un')
  have step: "octalStep (unat n) c = unat n * 8 + d"
    by (simp add: octalStep_def d_def)
  show ?case
  proof (cases "unat n * 8 + d < 2 ^ 32")
    case True
    then have le: "\<not> (4294967295 < n * 8 + of_nat d)"
      by (simp add: word_less_nat_alt un1)
    from True have "unat (n * 8 + of_nat d) < 2 ^ 32" by (simp add: un1)
    from Cons.IH [OF ds this] show ?thesis
      using dv d8 nu n61 nolt le by (simp add: Let_def un1 step)
  next
    case False
    then have gt: "4294967295 < n * 8 + of_nat d"
      by (simp add: word_less_nat_alt un1)
    have "unat n * 8 + d \<le> foldl octalStep (unat n * 8 + d) ds"
      by (rule foldl_octalStep_mono)
    with False have "\<not> foldl octalStep (unat n * 8 + d) ds < 2 ^ 32" by simp
    then show ?thesis
      using dv d8 nu n61 nolt gt by (simp add: Let_def step)
  qed
qed

lemma ParseUint_base8:
  assumes "ds \<noteq> []" and "set ds \<subseteq> set octal_class"
  shows "ParseUint ds 8 32 =
           (if octalValue ds < 2 ^ 32 then (of_nat (octalValue ds), None)
            else (4294967295, Some ErrRange))"
proof -
  have "parseLoop 8 False (2 ^ 61) 4294967295 ds False 0 =
       (if octalValue ds < 2 ^ 32 then Inr (of_nat (octalValue ds), False)
        else Inl (4294967295, Some ErrRange))"
    using parseLoop_octal [OF assms(2), of 0 False False] by (simp add: octalValue_def)
  with assms(1) show ?thesis
    by (simp add: ParseUint_def)
qed


lemma octal_lower: "c \<in> set octal_class \<Longrightarrow> lower c \<noteq> 98 \<and> lower c \<noteq> 111 \<and> lower c \<noteq> 120"
  unfolding octal_class_def byte_def lower_def by auto

lemma ParseUint_base0_common:
  assumes "set ds \<subseteq> set octal_class" and "s \<noteq> []" and "basePrefix s = (8, ds)"
  shows "ParseUint s 0 32 =
           (if octalValue ds < 2 ^ 32 then (of_nat (octalValue ds), None)
            else (4294967295, Some ErrRange))"
proof -
  have "parseLoop 8 True (2 ^ 61) 4294967295 ds False 0 =
       (if octalValue ds < 2 ^ 32 then Inr (of_nat (octalValue ds), False)
        else Inl (4294967295, Some ErrRange))"
    using parseLoop_octal [OF assms(1), of 0 True False] by (simp add: octalValue_def)
  with assms(2,3) show ?thesis
    by (simp add: ParseUint_def)
qed

lemma ParseUint_zero_prefix:
  assumes "ds \<noteq> []" and "set ds \<subseteq> set octal_class"
  shows "ParseUint (CHR ''0'' # ds) 0 32 =
           (if octalValue ds < 2 ^ 32 then (of_nat (octalValue ds), None)
            else (4294967295, Some ErrRange))"
proof -
  from assms obtain c ds' where ds: "ds = c # ds'" and c: "c \<in> set octal_class"
    by (cases ds) auto
  have "basePrefix (CHR ''0'' # ds) = (8, ds)"
    using octal_lower [OF c] by (simp add: basePrefix_def ds)
  with assms(2) show ?thesis by (intro ParseUint_base0_common) simp_all
qed

lemma ParseUint_zero_o_prefix:
  assumes "ds \<noteq> []" and "set ds \<subseteq> set octal_class"
  shows "ParseUint (CHR ''0'' # CHR ''o'' # ds) 0 32 =
           (if octalValue ds < 2 ^ 32 then (of_nat (octalValue ds), None)
            else (4294967295, Some ErrRange))"
proof -
  have "lower (CHR ''o'') = 111" "lower (CHR ''o'') \<noteq> 98"
    by (simp_all add: lower_def byte_def)
  with assms(1) have "basePrefix (CHR ''0'' # CHR ''o'' # ds) = (8, ds)"
    by (cases ds) (simp_all add: basePrefix_def)
  with assms(2) show ?thesis by (intro ParseUint_base0_common) simp_all
qed

lemma octalValue_bound: "set ds \<subseteq> set octal_class \<Longrightarrow> octalValue ds < 8 ^ length ds"
proof -
  have "set ds \<subseteq> set octal_class \<Longrightarrow> m < 8 ^ k \<Longrightarrow> foldl octalStep m ds < 8 ^ (k + length ds)"
    for m k
  proof (induction ds arbitrary: m k)
    case Nil
    then show ?case by simp
  next
    case (Cons c ds)
    from Cons.prems(1) have "byte c - 48 < 8" using octal_digit [of c] by simp
    with Cons.prems(2) have "octalStep m c < 8 ^ (Suc k)"
      unfolding octalStep_def by simp
    with Cons.IH [of "octalStep m c" "Suc k"] Cons.prems(1) show ?case by simp
  qed
  from this [of 0 0] show "set ds \<subseteq> set octal_class \<Longrightarrow> octalValue ds < 8 ^ length ds"
    by (simp add: octalValue_def)
qed

lemma octalValue_zero_Cons: "octalValue (CHR ''0'' # ds) = octalValue ds"
  by (simp add: octalValue_def octalStep_def byte_def)

lemma octal_long:
  assumes "set ds \<subseteq> set octal_class" and "2 ^ 32 \<le> octalValue ds"
  shows "3 \<le> length ds"
proof (rule ccontr)
  assume "\<not> 3 \<le> length ds"
  then have "length ds \<le> 2" by simp
  then have "(8::nat) ^ length ds \<le> 8 ^ 2" by (intro power_increasing) simp_all
  with octalValue_bound [OF assms(1)] assms(2) show False by simp
qed


lemma ucast_of_nat_64_32: "ucast (of_nat n :: 64 word) = (of_nat n :: Perm)"
  by (simp add: unsigned_of_nat word_of_nat_eq_iff)

lemma list3: "3 \<le> length ds \<Longrightarrow> \<exists>d1 d2 d3 w. ds = d1 # d2 # d3 # w"
  by (cases ds; cases "tl ds"; cases "tl (tl ds)") auto

lemma implicit_intro:
  assumes "set ds \<subseteq> set octal_class" and "3 \<le> length ds" and "hd ds \<noteq> CHR ''0''"
  shows "Match fmtImplicitInt ds"
proof -
  from list3 [OF assms(2)] obtain d1 d2 d3 w where ds: "ds = d1 # d2 # d3 # w" by blast
  with assms(1,3) have "d1 \<in> set octal_class" "d1 \<noteq> CHR ''0''" by simp_all
  then have "d1 \<in> set ''1234567''" unfolding octal_class_def by auto
  with assms(1) ds show ?thesis unfolding implicit_iff by simp
qed

lemma explicit_intro:
  assumes "set ds \<subseteq> set octal_class" and "3 \<le> length ds"
  shows "Match fmtExplicitInt (CHR ''0'' # ds)" and "Match fmtExplicitInt (CHR ''0'' # CHR ''o'' # ds)"
proof -
  from list3 [OF assms(2)] obtain d1 d2 d3 w where ds: "ds = d1 # d2 # d3 # w" by blast
  with assms(1) have v: "ds \<in> lang (Rep3up (Cls octal_class))"
    unfolding explicit_tail by simp
  then show "Match fmtExplicitInt (CHR ''0'' # ds)" unfolding explicit_iff by blast
  from v show "Match fmtExplicitInt (CHR ''0'' # CHR ''o'' # ds)" unfolding explicit_iff by blast
qed

lemma zero_head_not_implicit: "\<not> Match fmtImplicitInt (CHR ''0'' # ds)"
  using pattern_heads(1) [of "CHR ''0'' # ds"] by auto

lemma UnmarshalText_implicit:
  assumes "set ds \<subseteq> set octal_class" and "3 \<le> length ds" and "hd ds \<noteq> CHR ''0''"
  shows "UnmarshalText p ds =
           (if octalValue ds < 2 ^ 32 then Return None (of_nat (octalValue ds))
            else Return (Some (ErrImplicitOctal ErrRange)) p)"
proof -
  from assms(2) have ne: "ds \<noteq> []" by auto
  have "UnmarshalText p ds = fromImplicit p ds"
    using implicit_intro [OF assms] by (simp add: UnmarshalText_def del: Match.simps)
  also have "\<dots> = (if octalValue ds < 2 ^ 32 then Return None (ucast (of_nat (octalValue ds) :: 64 word))
            else Return (Some (ErrImplicitOctal ErrRange)) p)"
    unfolding fromImplicit_def ParseUint_base8 [OF ne assms(1)] by simp
  also have "\<dots> = (if octalValue ds < 2 ^ 32 then Return None (of_nat (octalValue ds))
            else Return (Some (ErrImplicitOctal ErrRange)) p)"
    by (simp add: ucast_of_nat_64_32)
  finally show ?thesis .
qed

lemma UnmarshalText_explicit:
  assumes "set ds \<subseteq> set octal_class" and "3 \<le> length ds"
  shows "UnmarshalText p (CHR ''0'' # ds) =
           (if octalValue ds < 2 ^ 32 then Return None (of_nat (octalValue ds))
            else Return (Some (ErrOctal ErrRange)) p)"
    and "UnmarshalText p (CHR ''0'' # CHR ''o'' # ds) =
           (if octalValue ds < 2 ^ 32 then Return None (of_nat (octalValue ds))
            else Return (Some (ErrOctal ErrRange)) p)"
proof -
  from assms(2) have ne: "ds \<noteq> []" by auto
  note cast = ucast_of_nat_64_32
  have "UnmarshalText p (CHR ''0'' # ds) = fromExplicit p (CHR ''0'' # ds)"
    using explicit_intro(1) [OF assms] zero_head_not_implicit [of ds]
    by (simp add: UnmarshalText_def del: Match.simps)
  then show "UnmarshalText p (CHR ''0'' # ds) =
           (if octalValue ds < 2 ^ 32 then Return None (of_nat (octalValue ds))
            else Return (Some (ErrOctal ErrRange)) p)"
    unfolding fromExplicit_def ParseUint_zero_prefix [OF ne assms(1)] by (simp add: cast)
  have "UnmarshalText p (CHR ''0'' # CHR ''o'' # ds) = fromExplicit p (CHR ''0'' # CHR ''o'' # ds)"
    using explicit_intro(2) [OF assms] zero_head_not_implicit [of "CHR ''o'' # ds"]
    by (simp add: UnmarshalText_def del: Match.simps)
  then show "UnmarshalText p (CHR ''0'' # CHR ''o'' # ds) =
           (if octalValue ds < 2 ^ 32 then Return None (of_nat (octalValue ds))
            else Return (Some (ErrOctal ErrRange)) p)"
    unfolding fromExplicit_def ParseUint_zero_o_prefix [OF ne assms(1)] by (simp add: cast)
qed

text \<open>
  Claim C7. An octal digit string whose value exceeds the unsigned 32-bit range fails to
  parse: bare (as implicit octal when its first digit is not \<^verbatim>\<open>0\<close>, as explicit octal when
  it is), with the prefix \<^verbatim>\<open>0\<close> and with the prefix \<^verbatim>\<open>0o\<close>. Each time the error is
  \<^verbatim>\<open>ParseUint\<close>'s range error and the receiver keeps its value.
\<close>

theorem octal_overflow_rejected:
  "set ds \<subseteq> set octal_class \<Longrightarrow> 2 ^ 32 \<le> octalValue ds \<Longrightarrow>
     UnmarshalText p ds =
       Return (Some (if hd ds = CHR ''0'' then ErrOctal ErrRange else ErrImplicitOctal ErrRange)) p
     \<and> UnmarshalText p (CHR ''0'' # ds) = Return (Some (ErrOctal ErrRange)) p
     \<and> UnmarshalText p (''0o'' @ ds) = Return (Some (ErrOctal ErrRange)) p"
proof -
  assume oct: "set ds \<subseteq> set octal_class" and big: "2 ^ 32 \<le> octalValue ds"
  from octal_long [OF oct big] have len: "3 \<le> length ds" .
  from big have nlt: "\<not> octalValue ds < 2 ^ 32" by simp
  have bare: "UnmarshalText p ds =
       Return (Some (if hd ds = CHR ''0'' then ErrOctal ErrRange else ErrImplicitOctal ErrRange)) p"
  proof (cases "hd ds = CHR ''0''")
    case False
    with UnmarshalText_implicit [OF oct len False, of p] nlt show ?thesis by simp
  next
    case True
    with len obtain ds' where ds: "ds = CHR ''0'' # ds'" by (cases ds) auto
    with oct have oct': "set ds' \<subseteq> set octal_class" by simp
    from big ds have big': "2 ^ 32 \<le> octalValue ds'" by (simp add: octalValue_zero_Cons)
    from octal_long [OF oct' big'] have len': "3 \<le> length ds'" .
    from UnmarshalText_explicit(1) [OF oct' len', of p] big' True ds show ?thesis by simp
  qed
  moreover from UnmarshalText_explicit [OF oct len, of p] nlt
  have "UnmarshalText p (CHR ''0'' # ds) = Return (Some (ErrOctal ErrRange)) p"
    "UnmarshalText p (''0o'' @ ds) = Return (Some (ErrOctal ErrRange)) p"
    by simp_all
  ultimately show ?thesis by simp
qed

theorem octal_overflow_rejected_witness:
  "set ''47777777777'' \<subseteq> set octal_class \<and> 2 ^ 32 \<le> octalValue ''47777777777''
   \<and> UnmarshalText 420 ''47777777777'' = Return (Some (ErrImplicitOctal ErrRange)) 420
   \<and> UnmarshalText 420 ''047777777777'' = Return (Some (ErrOctal ErrRange)) 420
   \<and> UnmarshalText 420 ''0o47777777777'' = Return (Some (ErrOctal ErrRange)) 420"
proof -
  have h1: "set ''47777777777'' \<subseteq> set octal_class"
    by (simp add: octal_class_def)
  have h2: "2 ^ 32 \<le> octalValue ''47777777777''"
    by (simp add: octalValue_def octalStep_def byte_def)
  from octal_overflow_rejected [OF h1 h2, of 420] h1 h2 show ?thesis by simp
qed


lemma octDigit_props:
  assumes "d < 8"
  shows "octDigit d \<in> set octal_class" and "byte (octDigit d) - 48 = d"
    and "octDigit d = CHR ''0'' \<longleftrightarrow> d = 0"
proof -
  from assms consider "d = 0" | "d = 1" | "d = 2" | "d = 3" | "d = 4" | "d = 5" | "d = 6" | "d = 7"
    by linarith
  then have "octDigit d \<in> set octal_class \<and> byte (octDigit d) - 48 = d
      \<and> (octDigit d = CHR ''0'' \<longleftrightarrow> d = 0)"
    by cases (simp_all add: octDigit_def octal_class_def byte_def)
  then show "octDigit d \<in> set octal_class" and "byte (octDigit d) - 48 = d"
    and "octDigit d = CHR ''0'' \<longleftrightarrow> d = 0"
    by simp_all
qed

lemma octalValue_snoc: "octalValue (ds @ [c]) = 8 * octalValue ds + (byte c - 48)"
  by (simp add: octalValue_def octalStep_def)

lemma fmt_o_props:
  "set (fmt_o v) \<subseteq> set octal_class \<and> octalValue (fmt_o v) = v \<and> fmt_o v \<noteq> []
   \<and> (0 < v \<longrightarrow> hd (fmt_o v) \<noteq> CHR ''0'')"
proof (induction v rule: fmt_o.induct)
  case (1 v)
  show ?case
  proof (cases "v < 8")
    case True
    then have "fmt_o v = [octDigit v]" by (simp add: fmt_o.simps)
    with octDigit_props [OF True] show ?thesis
      by (simp add: octalValue_def octalStep_def)
  next
    case False
    then have eq: "fmt_o v = fmt_o (v div 8) @ [octDigit (v mod 8)]"
      by (subst fmt_o.simps) simp
    have m: "v mod 8 < 8" by simp
    from False have pos: "0 < v div 8" by simp
    from "1.IH" [OF False] pos octDigit_props(1,2) [OF m] show ?thesis
      unfolding eq by (simp add: octalValue_snoc)
  qed
qed

lemma fmt_o_length: "64 \<le> v \<Longrightarrow> 3 \<le> length (fmt_o v)"
proof -
  assume v: "64 \<le> v"
  have "octalValue (fmt_o v) < 8 ^ length (fmt_o v)"
    using fmt_o_props [of v] by (intro octalValue_bound) simp
  with fmt_o_props [of v] v have big: "64 < (8::nat) ^ length (fmt_o v)" by simp
  show ?thesis
  proof (rule ccontr)
    assume "\<not> 3 \<le> length (fmt_o v)"
    then have "length (fmt_o v) \<le> 2" by simp
    then have "(8::nat) ^ length (fmt_o v) \<le> 8 ^ 2" by (intro power_increasing) simp_all
    with big show False by simp
  qed
qed

lemma octalValue_zeros: "octalValue (replicate k (CHR ''0'') @ ds) = octalValue ds"
  by (induction k) (simp_all add: octalValue_zero_Cons)

lemma fmt_03o_props:
  "set (fmt_03o v) \<subseteq> set octal_class \<and> octalValue (fmt_03o v) = v \<and> 3 \<le> length (fmt_03o v)"
proof -
  have "CHR ''0'' \<in> set octal_class" by (simp add: octal_class_def)
  then have "set (replicate (3 - length (fmt_o v)) (CHR ''0'')) \<subseteq> set octal_class"
    by (auto simp: set_replicate_conv_if)
  with fmt_o_props [of v] show ?thesis
    unfolding fmt_03o_def by (simp add: octalValue_zeros)
qed

text \<open>
  Claim C6. For every \<open>v\<close> from 0100 to 0777 the string \<^verbatim>\<open>Sprintf("%o", v)\<close> parses to \<open>v\<close>, and
  for every \<open>v\<close> from 0 to 0777 the strings \<^verbatim>\<open>"0" + Sprintf("%03o", v)\<close> and
  \<^verbatim>\<open>"0o" + Sprintf("%03o", v)\<close> both parse to \<open>v\<close>.
\<close>

theorem octal_round_trip:
  "(64 \<le> v \<and> v \<le> 511 \<longrightarrow> UnmarshalText p (fmt_o v) = Return None (of_nat v))
   \<and> (v \<le> 511 \<longrightarrow> UnmarshalText p (CHR ''0'' # fmt_03o v) = Return None (of_nat v)
                  \<and> UnmarshalText p (''0o'' @ fmt_03o v) = Return None (of_nat v))"
proof (intro conjI impI)
  assume v: "64 \<le> v \<and> v \<le> 511"
  from fmt_o_props [of v] v have oct: "set (fmt_o v) \<subseteq> set octal_class"
    and val: "octalValue (fmt_o v) = v" and hd: "hd (fmt_o v) \<noteq> CHR ''0''"
    by simp_all
  from v have len: "3 \<le> length (fmt_o v)" by (intro fmt_o_length) simp
  from v have "v < 2 ^ 32" by simp
  with UnmarshalText_implicit [OF oct len hd, of p] val
  show "UnmarshalText p (fmt_o v) = Return None (of_nat v)" by simp
next
  assume v: "v \<le> 511"
  then have small: "v < 2 ^ 32" by simp
  from fmt_03o_props [of v] have oct: "set (fmt_03o v) \<subseteq> set octal_class"
    and val: "octalValue (fmt_03o v) = v" and len: "3 \<le> length (fmt_03o v)"
    by simp_all
  from UnmarshalText_explicit(1) [OF oct len, of p] val small
  show "UnmarshalText p (CHR ''0'' # fmt_03o v) = Return None (of_nat v)" by simp
  from UnmarshalText_explicit(2) [OF oct len, of p] val small
  show "UnmarshalText p (''0o'' @ fmt_03o v) = Return None (of_nat v)" by simp
qed

theorem octal_round_trip_witness:
  "(64 :: nat) \<le> 420 \<and> (420 :: nat) \<le> 511
   \<and> fmt_o 420 = ''644'' \<and> UnmarshalText 0 ''644'' = Return None 420
   \<and> (5 :: nat) \<le> 511
   \<and> fmt_03o 5 = ''005'' \<and> UnmarshalText 0 ''0005'' = Return None 5
   \<and> UnmarshalText 0 ''0o005'' = Return None 5"
proof -
  have f: "fmt_o 420 = ''644''" "fmt_03o 5 = ''005''"
    by (simp_all add: fmt_o.simps fmt_03o_def octDigit_def numeral_2_eq_2)
  from octal_round_trip [of 420 0] octal_round_trip [of 5 0] f show ?thesis
    by simp
qed

section \<open>Classification\<close>

lemma UnmarshalText_order_irrelevant: "UnmarshalText p b = UnmarshalText_specOrder p b"
proof (cases "Match fmtSymbolicMatch b")
  case True
  from symbolic_excludes [OF True] True show ?thesis
    by (simp add: UnmarshalText_def UnmarshalText_specOrder_def specOrder_def del: Match.simps)
next
  case False
  then show ?thesis
    by (simp add: UnmarshalText_def UnmarshalText_specOrder_def specOrder_def del: Match.simps)
qed

lemma implicit_digits:
  "Match fmtImplicitInt b \<Longrightarrow> set b \<subseteq> set octal_class \<and> 3 \<le> length b \<and> hd b \<noteq> CHR ''0''"
  unfolding implicit_iff octal_class_def by (elim exE conjE) auto

lemma explicit_digits:
  assumes "Match fmtExplicitInt b"
  shows "set (explicitDigits b) \<subseteq> set octal_class \<and> 3 \<le> length (explicitDigits b)
         \<and> (b = CHR ''0'' # explicitDigits b \<or> b = CHR ''0'' # CHR ''o'' # explicitDigits b)"
proof -
  from assms obtain d1 d2 d3 w where
    b: "b = CHR ''0'' # d1 # d2 # d3 # w \<or> b = CHR ''0'' # CHR ''o'' # d1 # d2 # d3 # w"
    and d: "d1 \<in> set octal_class" "d2 \<in> set octal_class" "d3 \<in> set octal_class"
      "set w \<subseteq> set octal_class"
    unfolding explicit_iff explicit_tail by blast
  from d(1) have "d1 \<noteq> CHR ''o''" unfolding octal_class_def by auto
  with b have "explicitDigits b = d1 # d2 # d3 # w"
    unfolding explicitDigits_def by auto
  with b d show ?thesis by simp
qed

lemma implicit_outcome:
  "Match fmtImplicitInt b \<Longrightarrow>
     UnmarshalText p b =
       (if octalValue b < 2 ^ 32 then Return None (of_nat (octalValue b))
        else Return (Some (ErrImplicitOctal ErrRange)) p)"
  using implicit_digits [of b] by (intro UnmarshalText_implicit) simp_all

lemma explicit_outcome:
  assumes "Match fmtExplicitInt b"
  shows "UnmarshalText p b =
       (if octalValue (explicitDigits b) < 2 ^ 32
        then Return None (of_nat (octalValue (explicitDigits b)))
        else Return (Some (ErrOctal ErrRange)) p)"
proof -
  from explicit_digits [OF assms] have oct: "set (explicitDigits b) \<subseteq> set octal_class"
    and len: "3 \<le> length (explicitDigits b)"
    and b: "b = CHR ''0'' # explicitDigits b \<or> b = CHR ''0'' # CHR ''o'' # explicitDigits b"
    by simp_all
  from b show ?thesis
  proof
    assume "b = CHR ''0'' # explicitDigits b"
    with UnmarshalText_explicit(1) [OF oct len, of p] show ?thesis by simp
  next
    assume "b = CHR ''0'' # CHR ''o'' # explicitDigits b"
    with UnmarshalText_explicit(2) [OF oct len, of p] show ?thesis by simp
  qed
qed


section \<open>The symbolic decoder against the specification's clause semantics\<close>

lemma nibble_bits:
  "bit (448 :: Perm) n \<Longrightarrow> bit (511 :: Perm) n"
  "bit (56 :: Perm) n \<Longrightarrow> bit (511 :: Perm) n"
  "bit (7 :: Perm) n \<Longrightarrow> bit (511 :: Perm) n"
proof -
  have "(448 :: Perm) AND 511 = 448" "(56 :: Perm) AND 511 = 56" "(7 :: Perm) AND 511 = 7"
    by simp_all
  then have "bit (448 :: Perm) n = bit (448 AND 511 :: Perm) n"
    "bit (56 :: Perm) n = bit (56 AND 511 :: Perm) n"
    "bit (7 :: Perm) n = bit (7 AND 511 :: Perm) n"
    by (simp_all only:)
  then show "bit (448 :: Perm) n \<Longrightarrow> bit (511 :: Perm) n"
    "bit (56 :: Perm) n \<Longrightarrow> bit (511 :: Perm) n"
    "bit (7 :: Perm) n \<Longrightarrow> bit (511 :: Perm) n"
    unfolding bit_and_iff by blast+
qed

lemma bit_foldl_actorSym:
  "bit (foldl actorSym acc a) n \<longleftrightarrow>
     (CHR ''a'' \<in> set a \<and> bit (511 :: Perm) n) \<or> (CHR ''a'' \<notin> set a \<and> bit acc n)
     \<or> (CHR ''u'' \<in> set a \<and> bit (448 :: Perm) n) \<or> (CHR ''g'' \<in> set a \<and> bit (56 :: Perm) n)
     \<or> (CHR ''o'' \<in> set a \<and> bit (7 :: Perm) n)"
proof (induction a arbitrary: acc)
  case Nil
  show ?case by (simp only: foldl_Nil list.set empty_iff simp_thms)
next
  case (Cons c a)
  have step: "bit (actorSym acc c) n \<longleftrightarrow>
      (c = CHR ''a'' \<and> bit (511 :: Perm) n) \<or> (c \<noteq> CHR ''a'' \<and> bit acc n)
      \<or> (c = CHR ''u'' \<and> bit (448 :: Perm) n) \<or> (c = CHR ''g'' \<and> bit (56 :: Perm) n)
      \<or> (c = CHR ''o'' \<and> bit (7 :: Perm) n)"
    unfolding actorSym_def using nibble_bits [of n]
    by (simp only: bit_or_iff split: if_split) auto
  show ?case
    unfolding foldl_Cons Cons.IH step using nibble_bits [of n]
    by (simp only: list.set insert_iff) blast
qed


lemma bit_zero_Perm: "\<not> bit (0 :: Perm) n"
  by simp

lemma foldl_actorSym_mask: "foldl actorSym 0 a = actorMask a"
proof (rule bit_eqI)
  fix n
  have "bit (actorMask a) n \<longleftrightarrow>
     (CHR ''a'' \<in> set a \<and> bit (511 :: Perm) n)
     \<or> (CHR ''u'' \<in> set a \<and> bit (448 :: Perm) n) \<or> (CHR ''g'' \<in> set a \<and> bit (56 :: Perm) n)
     \<or> (CHR ''o'' \<in> set a \<and> bit (7 :: Perm) n)"
    unfolding actorMask_def bit_or_iff
    by (simp only: bit_zero_Perm if_distrib [of "\<lambda>w. bit w n"] split: if_split) blast
  then show "bit (foldl actorSym 0 a) n = bit (actorMask a) n"
    unfolding bit_foldl_actorSym by (simp only: bit_zero_Perm simp_thms)
qed

lemma bit_foldl_permSym:
  "bit (foldl permSym acc p) n \<longleftrightarrow>
     bit acc n \<or> (CHR ''r'' \<in> set p \<and> bit (292 :: Perm) n)
     \<or> (CHR ''w'' \<in> set p \<and> bit (146 :: Perm) n) \<or> (CHR ''x'' \<in> set p \<and> bit (73 :: Perm) n)"
proof (induction p arbitrary: acc)
  case Nil
  show ?case by (simp only: foldl_Nil list.set empty_iff simp_thms)
next
  case (Cons c p)
  have step: "bit (permSym acc c) n \<longleftrightarrow>
      bit acc n \<or> (c = CHR ''r'' \<and> bit (292 :: Perm) n)
      \<or> (c = CHR ''w'' \<and> bit (146 :: Perm) n) \<or> (c = CHR ''x'' \<and> bit (73 :: Perm) n)"
    unfolding permSym_def
    by (simp only: bit_or_iff split: if_split) auto
  show ?case
    unfolding foldl_Cons Cons.IH step
    by (simp only: list.set insert_iff) blast
qed

lemma foldl_permSym_mask: "foldl permSym 0 p = permMask p"
proof (rule bit_eqI)
  fix n
  have "bit (permMask p) n \<longleftrightarrow>
     (CHR ''r'' \<in> set p \<and> bit (292 :: Perm) n)
     \<or> (CHR ''w'' \<in> set p \<and> bit (146 :: Perm) n) \<or> (CHR ''x'' \<in> set p \<and> bit (73 :: Perm) n)"
    unfolding permMask_def bit_or_iff
    by (simp only: bit_zero_Perm if_distrib [of "\<lambda>w. bit w n"] split: if_split) blast
  then show "bit (foldl permSym 0 p) n = bit (permMask p) n"
    unfolding bit_foldl_permSym by (simp only: bit_zero_Perm simp_thms)
qed

lemma symbolicLoop_clauses:
  "symbolicLoop acc (map clauseGroups cs) = Some (foldl applyClause acc cs)"
proof (induction cs arbitrary: acc)
  case Nil
  show ?case by simp
next
  case (Cons c cs)
  obtain a op p sep where c: "c = (a, op, p, sep)" by (cases c) auto
  have "applyOp op (actorMask a) (permMask p) acc = applyClause acc (a, op, p, sep)"
    by (simp add: applyOp_def)
  with Cons.IH show ?case
    by (simp add: c Let_def foldl_actorSym_mask foldl_permSym_mask)
qed

lemma tries_cond:
  assumes "list_all P a" and "t = [] \<or> \<not> P (hd t)"
  shows "(k \<le> length (a @ t) \<and> list_all P (take k (a @ t))) \<longleftrightarrow> k \<le> length a"
proof
  assume k: "k \<le> length a"
  then have "take k (a @ t) = take k a" by simp
  moreover from assms(1) have "list_all P (take k a)"
    unfolding list_all_iff using set_take_subset [of k a] by blast
  ultimately show "k \<le> length (a @ t) \<and> list_all P (take k (a @ t))" using k by simp
next
  assume h: "k \<le> length (a @ t) \<and> list_all P (take k (a @ t))"
  show "k \<le> length a"
  proof (rule ccontr)
    assume "\<not> k \<le> length a"
    then have gt: "length a < k" by simp
    with h have "t \<noteq> []" by auto
    then obtain x t' where t: "t = x # t'" by (cases t) auto
    from gt obtain j where j: "k - length a = Suc j" by (cases "k - length a") auto
    from gt have "take k (a @ t) = a @ take (k - length a) t" by simp
    with t j have "x \<in> set (take k (a @ t))" by simp
    with h have "P x" unfolding list_all_iff by blast
    with assms(2) t show False by simp
  qed
qed

lemma tries_head:
  assumes "list_all P a" and "a \<noteq> []" and "length a \<le> 3" and "t = [] \<or> \<not> P (hd t)"
  shows "\<exists>ks. filter (\<lambda>k. k \<le> length (a @ t) \<and> list_all P (take k (a @ t))) [3, 2, 1]
           = length a # ks"
proof -
  from assms(2) have "0 < length a" by simp
  with assms(3) consider "length a = 1" | "length a = 2" | "length a = 3"
    by linarith
  then show ?thesis
    unfolding tries_cond [OF assms(1,4)] by cases simp_all
qed

lemma permTries_head:
  assumes "permText p" and "rest = [] \<or> hd rest \<notin> set ''rwx''"
  shows "\<exists>ks. permTries (p @ rest) = length p # ks"
proof -
  from assms(1) have "list_all (\<lambda>c. c \<in> set ''rwx'') p" "p \<noteq> []" "length p \<le> 3"
    unfolding permText_def list_all_iff by blast+
  from tries_head [OF this, of rest] assms(2) show ?thesis
    unfolding permTries_def by simp
qed

lemma extractAt_clause:
  assumes a: "actorText a" and op: "op \<in> set ''-=+''" and p: "permText p"
    and rest: "rest = [] \<or> hd rest \<notin> set ''rwx''"
  shows "extractAt (a @ op # p @ rest) = Some (a, [op], p)"
proof -
  from permTries_head [OF p rest] obtain js where js: "permTries (p @ rest) = length p # js"
    by blast
  from op have opn: "op \<notin> set ''ugo''" by auto
  have "\<exists>ks. actorTries (a @ op # p @ rest) = length a # ks"
  proof (cases "a = ''a''")
    case True
    then show ?thesis by (simp add: actorTries_def)
  next
    case False
    with a have as: "a \<noteq> []" "length a \<le> 3" "set a \<subseteq> set ''ugo''"
      unfolding actorText_def by blast+
    then have all: "list_all (\<lambda>c. c \<in> set ''ugo'') a" unfolding list_all_iff by blast
    from as obtain x a' where xa: "a = x # a'" by (cases a) auto
    with as(3) have "x \<noteq> CHR ''a''" by auto
    then have "take 1 (a @ op # p @ rest) \<noteq> ''a''" by (simp add: xa)
    moreover from tries_head [OF all as(1,2), of "op # p @ rest"] opn
    obtain ks where "filter (\<lambda>k. k \<le> length (a @ op # p @ rest)
        \<and> list_all (\<lambda>c. c \<in> set ''ugo'') (take k (a @ op # p @ rest))) [3, 2, 1] = length a # ks"
      by auto
    ultimately show ?thesis unfolding actorTries_def by simp
  qed
  then obtain ks where "actorTries (a @ op # p @ rest) = length a # ks" by blast
  with js op show ?thesis
    unfolding extractAt_def by simp
qed

lemma FindAllSubmatch_match:
  "s \<noteq> [] \<Longrightarrow> extractAt s = Some (g1, g2, g3) \<Longrightarrow>
     FindAllSubmatch s =
       [g1 @ g2 @ g3, g1, g2, g3] # FindAllSubmatch (drop (length (g1 @ g2 @ g3)) s)"
  by (cases s) simp_all

lemma FindAllSubmatch_skip_space:
  assumes "c \<in> set space_class"
  shows "FindAllSubmatch (c # s) = FindAllSubmatch s"
proof -
  from assms have c: "c \<noteq> CHR ''a''" "c \<notin> set ''ugo''"
    unfolding space_class_def by auto
  then have "actorTries (c # s) = []"
    unfolding actorTries_def by (simp add: numeral_3_eq_3 numeral_2_eq_2)
  then have "extractAt (c # s) = None" unfolding extractAt_def by simp
  then show ?thesis by simp
qed

lemma render_Cons: "render (c # cs) = clauseText c @ render cs"
  by (simp add: render_def)

lemma render_head: "list_all wfClause cs \<Longrightarrow> render cs = [] \<or> hd (render cs) \<in> set ''augo''"
proof (cases cs)
  case Nil
  then show ?thesis by (simp add: render_def)
next
  case (Cons c cs')
  assume "list_all wfClause cs"
  with Cons have wf: "wfClause c" by simp
  obtain a op p sep where c: "c = (a, op, p, sep)" by (cases c) auto
  with wf have "actorText a" by simp
  then have "a \<noteq> []" "hd a \<in> set ''augo''"
    unfolding actorText_def by (cases a; auto)+
  then show ?thesis unfolding Cons render_Cons c by simp
qed

lemma FindAllSubmatch_render:
  "list_all wfClause cs \<Longrightarrow> FindAllSubmatch (render cs) = map clauseGroups cs"
proof (induction cs)
  case Nil
  show ?case by (simp add: render_def)
next
  case (Cons c cs)
  obtain a op p sep where c: "c = (a, op, p, sep)" by (cases c) auto
  from Cons.prems c have wf: "actorText a" "op \<in> set ''-=+''" "permText p" "sepText sep"
    and wfs: "list_all wfClause cs"
    by simp_all
  from Cons.IH [OF wfs] have IH: "FindAllSubmatch (render cs) = map clauseGroups cs" .
  from render_head [OF wfs] have rh: "render cs = [] \<or> hd (render cs) \<notin> set ''rwx''"
    by auto
  have rest: "sep @ render cs = [] \<or> hd (sep @ render cs) \<notin> set ''rwx''"
    using wf(4) rh unfolding sepText_def space_class_def by auto
  have skip: "FindAllSubmatch (sep @ render cs) = FindAllSubmatch (render cs)"
    using wf(4) unfolding sepText_def
    by (auto simp: FindAllSubmatch_skip_space simp del: FindAllSubmatch.simps)
  from wf(1) have ane: "a \<noteq> []" unfolding actorText_def by auto
  have shape: "render ((a, op, p, sep) # cs) = a @ op # p @ (sep @ render cs)"
    unfolding render_Cons by simp
  have "FindAllSubmatch (a @ op # p @ (sep @ render cs)) =
      [a @ [op] @ p, a, [op], p] # FindAllSubmatch (drop (length (a @ [op] @ p)) (a @ op # p @ (sep @ render cs)))"
    using ane by (intro FindAllSubmatch_match extractAt_clause [OF wf(1,2,3) rest]) simp
  also have "drop (length (a @ [op] @ p)) (a @ op # p @ (sep @ render cs)) = sep @ render cs"
    by simp
  finally have "FindAllSubmatch (render ((a, op, p, sep) # cs)) =
      [a @ [op] @ p, a, [op], p] # map clauseGroups cs"
    unfolding shape skip IH .
  then show ?case unfolding c by simp
qed

lemma clauseText_lang: "wfClause c \<Longrightarrow> clauseText c \<in> lang symbolicClause"
proof -
  assume wf: "wfClause c"
  obtain a op p sep where c: "c = (a, op, p, sep)" by (cases c) auto
  with wf show ?thesis unfolding clause_iff c by (simp only: clauseText.simps wfClause.simps) blast
qed

lemma render_star: "list_all wfClause cs \<Longrightarrow> render cs \<in> star (lang symbolicClause)"
proof (induction cs)
  case Nil
  show ?case by (simp add: render_def star_empty)
next
  case (Cons c cs)
  then have "clauseText c \<in> lang symbolicClause" "render cs \<in> star (lang symbolicClause)"
    by (simp_all add: clauseText_lang)
  then show ?case unfolding render_Cons by (rule star_step)
qed

lemma render_Match:
  "cs \<noteq> [] \<Longrightarrow> list_all wfClause cs \<Longrightarrow> Match fmtSymbolicMatch (render cs)"
proof -
  assume "cs \<noteq> []" and wf: "list_all wfClause cs"
  then obtain c cs' where cs: "cs = c # cs'" by (cases cs) auto
  with wf have "clauseText c \<in> lang symbolicClause" "render cs' \<in> star (lang symbolicClause)"
    by (simp_all add: clauseText_lang render_star)
  then show ?thesis unfolding symbolic_iff cs render_Cons by blast
qed

lemma UnmarshalText_render:
  assumes "cs \<noteq> []" and "list_all wfClause cs"
  shows "UnmarshalText p (render cs) = Return None (symbolicSpec cs)"
proof -
  have "UnmarshalText p (render cs) = fromSymbolic p (render cs)"
    using render_Match [OF assms] by (rule UnmarshalText_symbolic)
  also have "\<dots> = Return None (symbolicSpec cs)"
    unfolding fromSymbolic_def FindAllSubmatch_render [OF assms(2)] symbolicLoop_clauses
      symbolicSpec_def by simp
  finally show ?thesis .
qed

text \<open>
  Claim C4. Parsing a symbolic expression applies its clauses from left to right to an
  accumulator that starts at zero: \<^verbatim>\<open>+\<close> ORs (actor-mask AND perm-mask) into it, \<^verbatim>\<open>-\<close> ANDs it
  with the complement of (actor-mask AND perm-mask), \<^verbatim>\<open>=\<close> clears the actor-mask and ORs in
  (actor-mask AND perm-mask). This holds for the text of every non-empty list of clauses,
  each followed by nothing or by one white-space byte. In particular \<^verbatim>\<open>a=rwx\<close> gives 0777,
  \<^verbatim>\<open>a=rwx o-w\<close> 0775, \<^verbatim>\<open>u=x g=w o=r\<close> 0124, \<^verbatim>\<open>u+w u+r u+w\<close> 0600, \<^verbatim>\<open>u=ru+wu-r\<close> 0200 and
  \<^verbatim>\<open>a=rwx o-r a-w o-x o+r\<close> 0554.
\<close>

theorem symbolic_clause_semantics:
  "(cs \<noteq> [] \<and> list_all wfClause cs \<longrightarrow>
      UnmarshalText p (render cs) = Return None (symbolicSpec cs))
   \<and> UnmarshalText p ''a=rwx'' = Return None 511
   \<and> UnmarshalText p ''a=rwx o-w'' = Return None 509
   \<and> UnmarshalText p ''u=x g=w o=r'' = Return None 84
   \<and> UnmarshalText p ''u+w u+r u+w'' = Return None 384
   \<and> UnmarshalText p ''u=ru+wu-r'' = Return None 128
   \<and> UnmarshalText p ''a=rwx o-r a-w o-x o+r'' = Return None 364"
proof (intro conjI impI)
  show "UnmarshalText p (render cs) = Return None (symbolicSpec cs)"
    if "cs \<noteq> [] \<and> list_all wfClause cs"
    using that by (intro UnmarshalText_render) simp_all
  show "UnmarshalText p ''a=rwx'' = Return None 511"
    by (simp add: UnmarshalText_def pattern_defs symbolic_defs)
  show "UnmarshalText p ''a=rwx o-w'' = Return None 509"
    by (simp add: UnmarshalText_def pattern_defs symbolic_defs)
  show "UnmarshalText p ''u=x g=w o=r'' = Return None 84"
    by (simp add: UnmarshalText_def pattern_defs symbolic_defs)
  show "UnmarshalText p ''u+w u+r u+w'' = Return None 384"
    by (simp add: UnmarshalText_def pattern_defs symbolic_defs)
  show "UnmarshalText p ''u=ru+wu-r'' = Return None 128"
    by (simp add: UnmarshalText_def pattern_defs symbolic_defs)
  show "UnmarshalText p ''a=rwx o-r a-w o-x o+r'' = Return None 364"
    by (simp add: UnmarshalText_def pattern_defs symbolic_defs)
qed

theorem symbolic_clause_semantics_witness:
  "[(''ug'', CHR ''='', ''rx'', '' ''), (''u'', CHR ''+'', ''w'', []), (''o'', CHR ''-'', ''x'', [])] \<noteq> []
   \<and> list_all wfClause
        [(''ug'', CHR ''='', ''rx'', '' ''), (''u'', CHR ''+'', ''w'', []), (''o'', CHR ''-'', ''x'', [])]
   \<and> render [(''ug'', CHR ''='', ''rx'', '' ''), (''u'', CHR ''+'', ''w'', []), (''o'', CHR ''-'', ''x'', [])]
        = ''ug=rx u+wo-x''
   \<and> symbolicSpec
        [(''ug'', CHR ''='', ''rx'', '' ''), (''u'', CHR ''+'', ''w'', []), (''o'', CHR ''-'', ''x'', [])]
        = 488
   \<and> UnmarshalText 0 ''ug=rx u+wo-x'' = Return None 488"
proof -
  let ?cs = "[(''ug'', CHR ''='', ''rx'', '' ''), (''u'', CHR ''+'', ''w'', []),
              (''o'', CHR ''-'', ''x'', [])]"
  have wf: "?cs \<noteq> [] \<and> list_all wfClause ?cs"
    by (simp add: actorText_def permText_def sepText_def space_class_def)
  have r: "render ?cs = ''ug=rx u+wo-x''"
    by (simp add: render_def)
  have v: "symbolicSpec ?cs = 488"
    by (simp add: symbolicSpec_def actorMask_def permMask_def)
  from symbolic_clause_semantics [of ?cs 0] wf r v show ?thesis by simp
qed

section \<open>Formatting what the full form parsed\<close>

lemma isSubseq_set: "isSubseq xs ys \<Longrightarrow> set xs \<subseteq> set ys"
  by (induction xs ys rule: isSubseq.induct) (auto split: if_splits)

lemma filter_isSubseq:
  "isSubseq xs ys \<Longrightarrow> distinct ys \<Longrightarrow> filter (\<lambda>c. c \<in> set xs) ys = xs"
proof (induction xs ys rule: isSubseq.induct)
  case (1 ys)
  show ?case by simp
next
  case (2 x xs)
  then show ?case by simp
next
  case (3 x xs y ys)
  from "3.prems"(2) have d: "y \<notin> set ys" "distinct ys" by simp_all
  show ?case
  proof (cases "x = y")
    case True
    with "3.prems"(1) have sub: "isSubseq xs ys" by simp
    from "3.IH"(1) [OF True sub d(2)] have IH: "filter (\<lambda>c. c \<in> set xs) ys = xs" .
    from d(1) True have "filter (\<lambda>c. c \<in> set (x # xs)) ys = filter (\<lambda>c. c \<in> set xs) ys"
      by (intro filter_cong) auto
    with IH True show ?thesis by simp
  next
    case False
    with "3.prems"(1) have sub: "isSubseq (x # xs) ys" by simp
    from "3.IH"(2) [OF False sub d(2)] have IH: "filter (\<lambda>c. c \<in> set (x # xs)) ys = x # xs" .
    from isSubseq_set [OF sub] d(1) have "y \<notin> set (x # xs)" by blast
    with IH show ?thesis by simp
  qed
qed

lemma enumerate_filter_by_element:
  assumes "\<And>i. i < length xs \<Longrightarrow> P i \<longleftrightarrow> Q (xs ! i)"
  shows "map snd (filter (\<lambda>(i, c). P i) (enumerate 0 xs)) = filter Q xs"
proof -
  have "filter (\<lambda>(i, c). P i) (enumerate 0 xs) = filter (Q \<circ> snd) (enumerate 0 xs)"
  proof (rule filter_cong [OF refl])
    fix x assume "x \<in> set (enumerate 0 xs)"
    then have "fst x < length xs" "snd x = xs ! fst x"
      by (simp_all add: in_set_enumerate_eq)
    then obtain i where "x = (i, xs ! i)" "i < length xs"
      by (cases x) simp
    with assms show "(case x of (i, c) \<Rightarrow> P i) = (Q \<circ> snd) x" by simp
  qed
  then show ?thesis by (simp add: filter_map [symmetric])
qed

lemma fullAttr_modeOf: "fullAttr perm c = perm OR modeOf c"
  unfolding fullAttr_def modeOf_def by simp

lemma bit_foldl_fullAttr:
  "bit (foldl fullAttr acc pre) n \<longleftrightarrow> bit acc n \<or> (\<exists>c \<in> set pre. bit (modeOf c) n)"
proof (induction pre arbitrary: acc)
  case Nil
  show ?case by simp
next
  case (Cons c pre)
  have "bit (foldl fullAttr acc (c # pre)) n \<longleftrightarrow>
          bit (fullAttr acc c) n \<or> (\<exists>c \<in> set pre. bit (modeOf c) n)"
    by (simp only: foldl_Cons Cons.IH)
  also have "bit (fullAttr acc c) n \<longleftrightarrow> bit acc n \<or> bit (modeOf c) n"
    by (simp only: fullAttr_modeOf [of acc c] bit_or_iff)
  finally show ?case by auto
qed

lemma bit_modes:
  "bit ModeDir n \<longleftrightarrow> n = 31" "bit ModeAppend n \<longleftrightarrow> n = 30"
  "bit ModeExclusive n \<longleftrightarrow> n = 29" "bit ModeTemporary n \<longleftrightarrow> n = 28"
  "bit ModeSymlink n \<longleftrightarrow> n = 27" "bit ModeDevice n \<longleftrightarrow> n = 26"
  "bit ModeNamedPipe n \<longleftrightarrow> n = 25" "bit ModeSocket n \<longleftrightarrow> n = 24"
  "bit ModeSetuid n \<longleftrightarrow> n = 23" "bit ModeSetgid n \<longleftrightarrow> n = 22"
  "bit ModeCharDevice n \<longleftrightarrow> n = 21" "bit ModeSticky n \<longleftrightarrow> n = 20"
  "bit ModeIrregular n \<longleftrightarrow> n = 19"
  unfolding mode_defs bit_single by simp_all

lemma bit_modeOf:
  "bit (modeOf c) n \<longleftrightarrow>
     (c = CHR ''d'' \<and> n = 31) \<or> (c = CHR ''a'' \<and> n = 30) \<or> (c = CHR ''l'' \<and> n = 29)
     \<or> (c = CHR ''T'' \<and> n = 28) \<or> (c = CHR ''L'' \<and> n = 27) \<or> (c = CHR ''D'' \<and> n = 26)
     \<or> (c = CHR ''p'' \<and> n = 25) \<or> (c = CHR ''S'' \<and> n = 24) \<or> (c = CHR ''u'' \<and> n = 23)
     \<or> (c = CHR ''g'' \<and> n = 22) \<or> (c = CHR ''c'' \<and> n = 21) \<or> (c = CHR ''t'' \<and> n = 20)
     \<or> (c = CHR ''?'' \<and> n = 19)"
proof -
  consider "c = CHR ''d''" | "c = CHR ''a''" | "c = CHR ''l''" | "c = CHR ''T''" | "c = CHR ''L''"
    | "c = CHR ''D''" | "c = CHR ''p''" | "c = CHR ''S''" | "c = CHR ''u''" | "c = CHR ''g''"
    | "c = CHR ''c''" | "c = CHR ''t''" | "c = CHR ''?''" | "c \<notin> set ''dalTLDpSugct?''"
    by auto
  then show ?thesis
    by cases (simp_all add: modeOf_def bit_modes)
qed

lemma and_single_bit: "m AND push_bit k 1 \<noteq> 0 \<longleftrightarrow> bit m k" for m :: Perm
  by (simp add: and_exp_eq_0_iff_not_bit)

lemma bit_orIf: "bit (orIf c bits perm) n \<longleftrightarrow> bit perm n \<or> (c \<and> bit bits n)"
  unfolding orIf_def by (simp add: bit_or_iff)

lemma bit_low_consts:
  "bit (256 :: Perm) n \<longleftrightarrow> n = 8" "bit (128 :: Perm) n \<longleftrightarrow> n = 7" "bit (64 :: Perm) n \<longleftrightarrow> n = 6"
  "bit (32 :: Perm) n \<longleftrightarrow> n = 5" "bit (16 :: Perm) n \<longleftrightarrow> n = 4" "bit (8 :: Perm) n \<longleftrightarrow> n = 3"
  "bit (4 :: Perm) n \<longleftrightarrow> n = 2" "bit (2 :: Perm) n \<longleftrightarrow> n = 1" "bit (1 :: Perm) n \<longleftrightarrow> n = 0"
  using bit_single [of 8 n] bit_single [of 7 n] bit_single [of 6 n] bit_single [of 5 n]
    bit_single [of 4 n] bit_single [of 3 n] bit_single [of 2 n] bit_single [of 1 n]
    bit_single [of 0 n]
  by simp_all

lemma bit_fullValue:
  "bit (fullValue pre t) n \<longleftrightarrow>
     (\<exists>c \<in> set pre. bit (modeOf c) n)
     \<or> (t ! 0 = CHR ''r'' \<and> n = 8) \<or> (t ! 1 = CHR ''w'' \<and> n = 7) \<or> (t ! 2 = CHR ''x'' \<and> n = 6)
     \<or> (t ! 3 = CHR ''r'' \<and> n = 5) \<or> (t ! 4 = CHR ''w'' \<and> n = 4) \<or> (t ! 5 = CHR ''x'' \<and> n = 3)
     \<or> (t ! 6 = CHR ''r'' \<and> n = 2) \<or> (t ! 7 = CHR ''w'' \<and> n = 1) \<or> (t ! 8 = CHR ''x'' \<and> n = 0)"
  unfolding fullValue_def bit_orIf bit_low_consts bit_foldl_fullAttr
  by (simp only: bit_zero_Perm simp_thms) blast

lemma fullValue_high:
  assumes "i < 13"
  shows "bit (fullValue pre t) (31 - i) \<longleftrightarrow> modeLetters ! i \<in> set pre"
proof -
  from assms have "i \<in> {12, 11, 10, 9, 8, 7, 6, 5, 4, 3, 2, 1, 0}"
    by (simp only: insert_iff empty_iff) presburger
  then show ?thesis
    by (elim insertE emptyE) (simp_all add: bit_fullValue bit_modeOf modeLetters_def)
qed

lemma fullValue_prefix:
  "map snd (filter (\<lambda>(i, c). fullValue pre t AND push_bit (32 - 1 - i) 1 \<noteq> 0)
              (enumerate 0 modeLetters)) = filter (\<lambda>c. c \<in> set pre) modeLetters"
proof (rule enumerate_filter_by_element)
  fix i
  assume "i < length modeLetters"
  then have "i < 13" by (simp add: modeLetters_def)
  from fullValue_high [OF this, of pre t]
  show "(fullValue pre t AND push_bit (32 - 1 - i) 1 \<noteq> 0) = (modeLetters ! i \<in> set pre)"
    unfolding and_single_bit by simp
qed

lemma basicTriple_columns:
  assumes "Match fmtBasicTriple t"
  shows "\<exists>c0 c1 c2 c3 c4 c5 c6 c7 c8. t = [c0, c1, c2, c3, c4, c5, c6, c7, c8]
           \<and> c0 \<in> set ''r-'' \<and> c1 \<in> set ''w-'' \<and> c2 \<in> set ''x-''
           \<and> c3 \<in> set ''r-'' \<and> c4 \<in> set ''w-'' \<and> c5 \<in> set ''x-''
           \<and> c6 \<in> set ''r-'' \<and> c7 \<in> set ''w-'' \<and> c8 \<in> set ''x-''"
proof -
  from assms obtain g1 g2 g3 where t: "t = g1 @ g2 @ g3" and g: "Match rwxGroup g1"
      "Match rwxGroup g2" "Match rwxGroup g3"
    unfolding basicTriple_iff by blast
  from g(1) obtain c0 c1 c2 where g1: "g1 = [c0, c1, c2]"
      "c0 \<in> set ''r-''" "c1 \<in> set ''w-''" "c2 \<in> set ''x-''"
    unfolding rwxGroup_iff by blast
  from g(2) obtain c3 c4 c5 where g2: "g2 = [c3, c4, c5]"
      "c3 \<in> set ''r-''" "c4 \<in> set ''w-''" "c5 \<in> set ''x-''"
    unfolding rwxGroup_iff by blast
  from g(3) obtain c6 c7 c8 where g3: "g3 = [c6, c7, c8]"
      "c6 \<in> set ''r-''" "c7 \<in> set ''w-''" "c8 \<in> set ''x-''"
    unfolding rwxGroup_iff by blast
  have "t = [c0, c1, c2, c3, c4, c5, c6, c7, c8]" unfolding t g1(1) g2(1) g3(1) by simp
  with g1(2-) g2(2-) g3(2-) show ?thesis by blast
qed

lemma fullValue_low:
  assumes "k < 9"
  shows "bit (fullValue pre t) k \<longleftrightarrow>
     (t ! 0 = CHR ''r'' \<and> k = 8) \<or> (t ! 1 = CHR ''w'' \<and> k = 7) \<or> (t ! 2 = CHR ''x'' \<and> k = 6)
     \<or> (t ! 3 = CHR ''r'' \<and> k = 5) \<or> (t ! 4 = CHR ''w'' \<and> k = 4) \<or> (t ! 5 = CHR ''x'' \<and> k = 3)
     \<or> (t ! 6 = CHR ''r'' \<and> k = 2) \<or> (t ! 7 = CHR ''w'' \<and> k = 1) \<or> (t ! 8 = CHR ''x'' \<and> k = 0)"
proof -
  from assms have "\<not> (\<exists>c \<in> set pre. bit (modeOf c) k)"
    unfolding bit_modeOf by auto
  then show ?thesis unfolding bit_fullValue by (simp only: simp_thms)
qed

lemma column: "c \<in> set [x, CHR ''-''] \<Longrightarrow> (if c = x then x else CHR ''-'') = c"
  by auto

lemma fullValue_triple:
  assumes "Match fmtBasicTriple t"
  shows "map (\<lambda>(i, c). if fullValue pre t AND push_bit (9 - 1 - i) 1 \<noteq> 0 then c else CHR ''-'')
           (enumerate 0 ''rwxrwxrwx'') = t"
proof -
  from basicTriple_columns [OF assms] obtain c0 c1 c2 c3 c4 c5 c6 c7 c8 where
    t: "t = [c0, c1, c2, c3, c4, c5, c6, c7, c8]"
    and c: "c0 \<in> set ''r-''" "c1 \<in> set ''w-''" "c2 \<in> set ''x-''"
      "c3 \<in> set ''r-''" "c4 \<in> set ''w-''" "c5 \<in> set ''x-''"
      "c6 \<in> set ''r-''" "c7 \<in> set ''w-''" "c8 \<in> set ''x-''"
    by blast
  have bits: "bit (fullValue pre t) 8 \<longleftrightarrow> c0 = CHR ''r''" "bit (fullValue pre t) 7 \<longleftrightarrow> c1 = CHR ''w''"
    "bit (fullValue pre t) 6 \<longleftrightarrow> c2 = CHR ''x''" "bit (fullValue pre t) 5 \<longleftrightarrow> c3 = CHR ''r''"
    "bit (fullValue pre t) 4 \<longleftrightarrow> c4 = CHR ''w''" "bit (fullValue pre t) 3 \<longleftrightarrow> c5 = CHR ''x''"
    "bit (fullValue pre t) 2 \<longleftrightarrow> c6 = CHR ''r''" "bit (fullValue pre t) 1 \<longleftrightarrow> c7 = CHR ''w''"
    "bit (fullValue pre t) 0 \<longleftrightarrow> c8 = CHR ''x''"
    "bit (fullValue pre t) (Suc 0) \<longleftrightarrow> c7 = CHR ''w''"
    by (simp_all add: fullValue_low t)
  have "map (\<lambda>(i, c). if bit (fullValue pre t) (9 - 1 - i) then c else CHR ''-'')
           (enumerate 0 ''rwxrwxrwx'') =
        [if c0 = CHR ''r'' then CHR ''r'' else CHR ''-'', if c1 = CHR ''w'' then CHR ''w'' else CHR ''-'',
         if c2 = CHR ''x'' then CHR ''x'' else CHR ''-'', if c3 = CHR ''r'' then CHR ''r'' else CHR ''-'',
         if c4 = CHR ''w'' then CHR ''w'' else CHR ''-'', if c5 = CHR ''x'' then CHR ''x'' else CHR ''-'',
         if c6 = CHR ''r'' then CHR ''r'' else CHR ''-'', if c7 = CHR ''w'' then CHR ''w'' else CHR ''-'',
         if c8 = CHR ''x'' then CHR ''x'' else CHR ''-'']"
    by (simp add: bits split del: if_split)
  also have "\<dots> = t"
    unfolding t by (simp only: column c)
  finally show ?thesis unfolding and_single_bit .
qed

lemma String_fullValue:
  assumes "canonicalPrefix pre" and "Match fmtBasicTriple t"
  shows "String (fullValue pre t) = pre @ t"
proof -
  have d: "distinct modeLetters" by (simp add: modeLetters_def)
  have "(let buf = filter (\<lambda>c. c \<in> set pre) modeLetters in if buf = [] then ''-'' else buf) = pre"
  proof (cases "pre = ''-''")
    case True
    then show ?thesis by (simp add: modeLetters_def)
  next
    case False
    with assms(1) have "pre \<noteq> []" "isSubseq pre modeLetters"
      unfolding canonicalPrefix_def by simp_all
    with filter_isSubseq [OF this(2) d] show ?thesis by simp
  qed
  then show ?thesis
    unfolding String_def FileMode_String_def fullValue_prefix fullValue_triple [OF assms(2)]
    by (simp add: Let_def)
qed

lemma canonicalPrefix_props:
  assumes "canonicalPrefix pre"
  shows "pre \<noteq> []" and "pre = ''-'' \<or> set pre \<subseteq> set ''dalTLDpSugct?''"
    and "hd pre \<in> set ''-dalTLDpSugct?''"
proof -
  from assms show ne: "pre \<noteq> []" unfolding canonicalPrefix_def by auto
  from assms have "pre = ''-'' \<or> isSubseq pre modeLetters"
    unfolding canonicalPrefix_def by blast
  then have "pre = ''-'' \<or> set pre \<subseteq> set modeLetters"
    using isSubseq_set [of pre modeLetters] by blast
  then show sub: "pre = ''-'' \<or> set pre \<subseteq> set ''dalTLDpSugct?''"
    unfolding modeLetters_def .
  from ne have "hd pre \<in> set pre" by simp
  with sub have "hd pre = CHR ''-'' \<or> hd pre \<in> set ''dalTLDpSugct?''" by auto
  then show "hd pre \<in> set ''-dalTLDpSugct?''" by (simp only: list.set insert_iff)
qed

lemma canonical_is_full_only:
  assumes "canonicalPrefix pre" and "Match fmtBasicTriple t"
  shows "\<not> Match fmtImplicitInt (pre @ t)" "\<not> Match fmtExplicitInt (pre @ t)"
    "\<not> Match fmtBasicSingle (pre @ t)" "\<not> Match fmtBasicTriple (pre @ t)"
    "\<not> Match fmtSymbolicMatch (pre @ t)" "Match fmtFull (pre @ t)"
proof -
  note pre = canonicalPrefix_props [OF assms(1)]
  from pre(1) have hd: "hd (pre @ t) = hd pre" by simp
  from basicTriple_length [OF assms(2)] have len: "length t = 9" .
  with pre(1) have long: "10 \<le> length (pre @ t)" by (cases pre) simp_all
  show "\<not> Match fmtImplicitInt (pre @ t)"
    using pattern_heads(1) [of "pre @ t"] pre(3) unfolding hd by auto
  show "\<not> Match fmtExplicitInt (pre @ t)"
    using pattern_heads(2) [of "pre @ t"] pre(3) unfolding hd by auto
  show "\<not> Match fmtBasicSingle (pre @ t)"
  proof
    assume "Match fmtBasicSingle (pre @ t)"
    then have "length (pre @ t) = 3" unfolding fmtBasicSingle_def by (rule rwxGroup_length)
    with long show False by simp
  qed
  show "\<not> Match fmtBasicTriple (pre @ t)"
  proof
    assume "Match fmtBasicTriple (pre @ t)"
    then have "length (pre @ t) = 9" by (rule basicTriple_length)
    with long show False by simp
  qed
  show "\<not> Match fmtSymbolicMatch (pre @ t)"
  proof
    assume "Match fmtSymbolicMatch (pre @ t)"
    then have "actorNearEnd (pre @ t)" by (rule symbolic_actorNearEnd)
    then obtain c where c: "c \<in> set (take 8 (rev (pre @ t)))" "c \<in> set ''augo''"
      unfolding actorNearEnd_def by blast
    from len have "take 8 (rev (pre @ t)) = take 8 (rev t)" by simp
    with c(1) have "c \<in> set (rev t)" using set_take_subset [of 8 "rev t"] by auto
    then have "c \<in> set ''rwx-''" using basicTriple_chars [OF assms(2), of c] by simp
    with c(2) show False by auto
  qed
  show "Match fmtFull (pre @ t)"
    unfolding full_iff using pre(2) assms(2) by blast
qed

lemma fromFull_canonical:
  assumes "Match fmtFull (pre @ t)" and "Match fmtBasicTriple t"
  shows "fromFull p (pre @ t) = Return None (fullValue pre t)"
proof -
  from basicTriple_nine [OF assms(2)] obtain c0 c1 c2 c3 c4 c5 c6 c7 c8 where
    t: "t = [c0, c1, c2, c3, c4, c5, c6, c7, c8]" by blast
  have "FindSubmatch_fmtFull (pre @ t) =
      [pre @ t, pre, [c0], [c1], [c2], [c3], [c4], [c5], [c6], [c7], [c8]]"
    using assms(1) unfolding FindSubmatch_fmtFull_def t by simp
  then show ?thesis
    unfolding fromFull_def by (simp add: fullPerm_def fullValue_def t)
qed

text \<open>
  Claim C2, as the code has it. A string made of a prefix that \<^verbatim>\<open>FileMode.String\<close> can write
  (a single \<^verbatim>\<open>-\<close>, or one or more letters of \<^verbatim>\<open>dalTLDpSugct?\<close> in that order without
  repetition) followed by the nine-byte basic-triple pattern parses with \<^verbatim>\<open>UnmarshalText\<close>,
  and \<^verbatim>\<open>String\<close> and \<^verbatim>\<open>MarshalText\<close> of the parsed value give back the string, byte for
  byte.
\<close>

theorem canonical_full_round_trip:
  "canonicalPrefix pre \<Longrightarrow> Match fmtBasicTriple t \<Longrightarrow>
     \<exists>v. UnmarshalText p (pre @ t) = Return None v \<and> String v = pre @ t
         \<and> MarshalText v = (pre @ t, None)"
proof -
  assume pre: "canonicalPrefix pre" and t: "Match fmtBasicTriple t"
  note only = canonical_is_full_only [OF pre t]
  have "UnmarshalText p (pre @ t) = fromFull p (pre @ t)"
    using only by (simp add: UnmarshalText_def del: Match.simps)
  also have "\<dots> = Return None (fullValue pre t)"
    using only(6) t by (rule fromFull_canonical)
  finally have "UnmarshalText p (pre @ t) = Return None (fullValue pre t)" .
  moreover have "String (fullValue pre t) = pre @ t"
    using pre t by (rule String_fullValue)
  ultimately show ?thesis by (simp add: MarshalText_def)
qed

theorem canonical_full_round_trip_witness:
  "canonicalPrefix ''ug'' \<and> Match fmtBasicTriple ''rwxr-xr-x''
   \<and> UnmarshalText 0 ''ugrwxr-xr-x'' = Return None 12583405
   \<and> String 12583405 = ''ugrwxr-xr-x''
   \<and> MarshalText 12583405 = (''ugrwxr-xr-x'', None)"
proof -
  have c: "canonicalPrefix ''ug''"
    by (simp add: canonicalPrefix_def modeLetters_def)
  have m: "Match fmtBasicTriple ''rwxr-xr-x''"
    by (simp add: pattern_defs)
  have u: "UnmarshalText 0 ''ugrwxr-xr-x'' = Return None 12583405"
    by (simp add: UnmarshalText_def pattern_defs fromFull_def FindSubmatch_fmtFull_def
        fullPerm_def fullAttr_def orIf_def mode_defs)
  from canonical_full_round_trip [OF c m, of 0] u c m show ?thesis by auto
qed

text \<open>
  Claim C2 as stated fails on full-form strings that \<^verbatim>\<open>FileMode.String\<close> never writes: with
  an empty prefix (\<^verbatim>\<open>rwxrwxrwx\<close> comes back as \<^verbatim>\<open>-rwxrwxrwx\<close>), with prefix letters out of
  order (\<^verbatim>\<open>gurwxr-xr-x\<close> comes back as \<^verbatim>\<open>ugrwxr-xr-x\<close>) and with a repeated letter
  (\<^verbatim>\<open>ddrwxrwxrwx\<close> comes back as \<^verbatim>\<open>drwxrwxrwx\<close>).
\<close>

theorem full_form_not_reproduced:
  "Match fmtFull ''rwxrwxrwx'' \<and> UnmarshalText 0 ''rwxrwxrwx'' = Return None 511
   \<and> String 511 = ''-rwxrwxrwx''
   \<and> Match fmtFull ''gurwxr-xr-x'' \<and> UnmarshalText 0 ''gurwxr-xr-x'' = Return None 12583405
   \<and> String 12583405 = ''ugrwxr-xr-x''
   \<and> Match fmtFull ''ddrwxrwxrwx'' \<and> UnmarshalText 0 ''ddrwxrwxrwx'' = Return None 2147484159
   \<and> String 2147484159 = ''drwxrwxrwx''"
proof -
  have m: "Match fmtFull ''rwxrwxrwx''" "Match fmtFull ''gurwxr-xr-x''" "Match fmtFull ''ddrwxrwxrwx''"
    by (simp_all add: pattern_defs)
  have u1: "UnmarshalText 0 ''rwxrwxrwx'' = Return None 511"
    by (simp add: UnmarshalText_def pattern_defs fromBasicTriple_def basicTriplePerm_def orIf_def)
  have u2: "UnmarshalText 0 ''gurwxr-xr-x'' = Return None 12583405"
    by (simp add: UnmarshalText_def pattern_defs fromFull_def FindSubmatch_fmtFull_def
        fullPerm_def fullAttr_def orIf_def mode_defs)
  have u3: "UnmarshalText 0 ''ddrwxrwxrwx'' = Return None 2147484159"
    by (simp add: UnmarshalText_def pattern_defs fromFull_def FindSubmatch_fmtFull_def
        fullPerm_def fullAttr_def orIf_def mode_defs)
  have s: "String 511 = ''-rwxrwxrwx''" "String 12583405 = ''ugrwxr-xr-x''"
    "String 2147484159 = ''drwxrwxrwx''"
    by (simp_all add: String_def FileMode_String_def modeLetters_def)
  from m u1 u2 u3 s show ?thesis by simp
qed

section \<open>Classification against the grammars' semantics\<close>

text \<open>
  Each fixed-width decoder and the symbolic decoder is compared with the value the
  specification's wording gives to the string, for every string the pattern accepts.
\<close>

lemma bit_fold_enumerate:
  "bit (fold (\<lambda>(i, c) acc. if Q c then acc OR push_bit (B - i) 1 else acc) (enumerate k xs) acc) n
   \<longleftrightarrow> bit acc n \<or> (\<exists>(i, c) \<in> set (enumerate k xs). Q c \<and> n = B - i \<and> n < 32)"
  for acc :: Perm
proof (induction xs arbitrary: k acc)
  case Nil
  show ?case by simp
next
  case (Cons x xs)
  have step: "bit (if Q x then acc OR push_bit (B - k) 1 else acc) n
      \<longleftrightarrow> bit acc n \<or> (Q x \<and> n = B - k \<and> n < 32)"
    by (auto simp only: bit_or_iff bit_single split: if_split)
  show ?case
    by (simp only: enumerate_simps fold_simps comp_apply case_prod_conv Cons.IH step
        list.set bex_simps insert_iff) blast
qed

lemma present_iff: "c \<in> set [x, CHR ''-''] \<Longrightarrow> x \<noteq> CHR ''-'' \<Longrightarrow> c \<noteq> CHR ''-'' \<longleftrightarrow> c = x"
  by auto

lemma fullValue_Nil_permBitsSpec:
  assumes "Match fmtBasicTriple t"
  shows "fullValue [] t = permBitsSpec t"
proof (rule bit_eqI)
  fix n
  from basicTriple_columns [OF assms] obtain c0 c1 c2 c3 c4 c5 c6 c7 c8 where
    t: "t = [c0, c1, c2, c3, c4, c5, c6, c7, c8]"
    and c: "c0 \<in> set ''r-''" "c1 \<in> set ''w-''" "c2 \<in> set ''x-''"
      "c3 \<in> set ''r-''" "c4 \<in> set ''w-''" "c5 \<in> set ''x-''"
      "c6 \<in> set ''r-''" "c7 \<in> set ''w-''" "c8 \<in> set ''x-''"
    by blast
  have p: "c0 \<noteq> CHR ''-'' \<longleftrightarrow> c0 = CHR ''r''" "c1 \<noteq> CHR ''-'' \<longleftrightarrow> c1 = CHR ''w''"
    "c2 \<noteq> CHR ''-'' \<longleftrightarrow> c2 = CHR ''x''" "c3 \<noteq> CHR ''-'' \<longleftrightarrow> c3 = CHR ''r''"
    "c4 \<noteq> CHR ''-'' \<longleftrightarrow> c4 = CHR ''w''" "c5 \<noteq> CHR ''-'' \<longleftrightarrow> c5 = CHR ''x''"
    "c6 \<noteq> CHR ''-'' \<longleftrightarrow> c6 = CHR ''r''" "c7 \<noteq> CHR ''-'' \<longleftrightarrow> c7 = CHR ''w''"
    "c8 \<noteq> CHR ''-'' \<longleftrightarrow> c8 = CHR ''x''"
    using c by (simp_all only: present_iff char.inject simp_thms)
  have code: "bit (fullValue [] t) n \<longleftrightarrow>
      (c0 = CHR ''r'' \<and> n = 8) \<or> (c1 = CHR ''w'' \<and> n = 7) \<or> (c2 = CHR ''x'' \<and> n = 6)
      \<or> (c3 = CHR ''r'' \<and> n = 5) \<or> (c4 = CHR ''w'' \<and> n = 4) \<or> (c5 = CHR ''x'' \<and> n = 3)
      \<or> (c6 = CHR ''r'' \<and> n = 2) \<or> (c7 = CHR ''w'' \<and> n = 1) \<or> (c8 = CHR ''x'' \<and> n = 0)"
    unfolding bit_fullValue t by simp
  have spec: "bit (permBitsSpec t) n \<longleftrightarrow>
      (c0 \<noteq> CHR ''-'' \<and> n = 8) \<or> (c1 \<noteq> CHR ''-'' \<and> n = 7) \<or> (c2 \<noteq> CHR ''-'' \<and> n = 6)
      \<or> (c3 \<noteq> CHR ''-'' \<and> n = 5) \<or> (c4 \<noteq> CHR ''-'' \<and> n = 4) \<or> (c5 \<noteq> CHR ''-'' \<and> n = 3)
      \<or> (c6 \<noteq> CHR ''-'' \<and> n = 2) \<or> (c7 \<noteq> CHR ''-'' \<and> n = 1) \<or> (c8 \<noteq> CHR ''-'' \<and> n = 0)"
    unfolding permBitsSpec_def bit_fold_enumerate t
    apply (simp only: enumerate_simps list.set bex_simps insert_iff case_prod_conv bit_zero_Perm simp_thms)
    apply (simp cong: conj_cong)
    done
  show "bit (fullValue [] t) n = bit (permBitsSpec t) n"
    unfolding code spec p ..
qed

lemma basicTriplePerm_fullValue:
  "Match fmtBasicTriple t \<Longrightarrow> basicTriplePerm t = Some (fullValue [] t)"
proof -
  assume "Match fmtBasicTriple t"
  then obtain c0 c1 c2 c3 c4 c5 c6 c7 c8 where "t = [c0, c1, c2, c3, c4, c5, c6, c7, c8]"
    using basicTriple_nine by blast
  then show ?thesis by (simp add: basicTriplePerm_def fullValue_def)
qed

lemma UnmarshalText_basicTriple:
  assumes "Match fmtBasicTriple b"
  shows "UnmarshalText p b = Return None (basicTripleSpec b)"
proof -
  from pattern_heads(4) [OF assms] have "\<not> Match fmtImplicitInt b" "\<not> Match fmtExplicitInt b"
    using pattern_heads(1,2) [of b] by auto
  moreover have "\<not> Match fmtBasicSingle b"
    using basicTriple_length [OF assms] rwxGroup_length [of b] unfolding fmtBasicSingle_def by auto
  ultimately have "UnmarshalText p b = fromBasicTriple p b"
    using assms by (simp add: UnmarshalText_def del: Match.simps)
  then show ?thesis
    unfolding fromBasicTriple_def basicTriplePerm_fullValue [OF assms] basicTripleSpec_def
      fullValue_Nil_permBitsSpec [OF assms] by simp
qed

lemma UnmarshalText_basicSingle:
  assumes "Match fmtBasicSingle b"
  shows "UnmarshalText p b = Return None (basicSingleSpec b)"
proof -
  from pattern_heads(3) [OF assms] have "\<not> Match fmtImplicitInt b" "\<not> Match fmtExplicitInt b"
    using pattern_heads(1,2) [of b] by auto
  then have u: "UnmarshalText p b = fromBasicSingle p b"
    using assms by (simp add: UnmarshalText_def del: Match.simps)
  from assms obtain c0 c1 c2 where b: "b = [c0, c1, c2]"
    and c: "c0 \<in> set ''r-''" "c1 \<in> set ''w-''" "c2 \<in> set ''x-''"
    unfolding basicSingle_iff by blast
  from c have "c0 = CHR ''r'' \<or> c0 = CHR ''-''" "c1 = CHR ''w'' \<or> c1 = CHR ''-''"
    "c2 = CHR ''x'' \<or> c2 = CHR ''-''" by simp_all
  then have "fromBasicSingle p [c0, c1, c2] = Return None (basicSingleSpec [c0, c1, c2])"
    by (elim disjE)
      (simp_all add: fromBasicSingle_def basicSinglePerm_def orIf_def basicSingleSpec_def
        permBitsSpec_def)
  with u b show ?thesis by simp
qed

lemma bit_specialBitsSpec:
  "bit (specialBitsSpec pre) n \<longleftrightarrow> (\<exists>c \<in> set pre. bit (modeOf c) n)"
proof -
  have "bit (specialBitsSpec pre) n \<longleftrightarrow>
      (CHR ''d'' \<in> set pre \<and> n = 31) \<or> (CHR ''a'' \<in> set pre \<and> n = 30)
      \<or> (CHR ''l'' \<in> set pre \<and> n = 29) \<or> (CHR ''T'' \<in> set pre \<and> n = 28)
      \<or> (CHR ''L'' \<in> set pre \<and> n = 27) \<or> (CHR ''D'' \<in> set pre \<and> n = 26)
      \<or> (CHR ''p'' \<in> set pre \<and> n = 25) \<or> (CHR ''S'' \<in> set pre \<and> n = 24)
      \<or> (CHR ''u'' \<in> set pre \<and> n = 23) \<or> (CHR ''g'' \<in> set pre \<and> n = 22)
      \<or> (CHR ''c'' \<in> set pre \<and> n = 21) \<or> (CHR ''t'' \<in> set pre \<and> n = 20)
      \<or> (CHR ''?'' \<in> set pre \<and> n = 19)"
    unfolding specialBitsSpec_def bit_fold_enumerate modeLetters_def
    apply (simp only: enumerate_simps list.set bex_simps insert_iff case_prod_conv bit_zero_Perm
        simp_thms)
    apply (simp cong: conj_cong)
    done
  also have "\<dots> \<longleftrightarrow> (\<exists>c \<in> set pre. bit (modeOf c) n)"
    unfolding bit_modeOf by (simp add: bex_disj_distrib)
  finally show ?thesis .
qed

lemma fullValue_fullSpec:
  assumes "Match fmtBasicTriple t"
  shows "fullValue pre t = fullSpec (pre @ t)"
proof -
  from basicTriple_length [OF assms] have "length t = 9" .
  then have split: "fullSpec (pre @ t) = specialBitsSpec pre OR permBitsSpec t"
    by (simp add: fullSpec_def)
  show ?thesis
  proof (rule bit_eqI)
    fix n
    have "bit (fullValue pre t) n \<longleftrightarrow> (\<exists>c \<in> set pre. bit (modeOf c) n) \<or> bit (fullValue [] t) n"
      unfolding bit_fullValue by simp
    then show "bit (fullValue pre t) n = bit (fullSpec (pre @ t)) n"
      unfolding split bit_or_iff bit_specialBitsSpec fullValue_Nil_permBitsSpec [OF assms] .
  qed
qed

lemma prefixed_full_only:
  assumes ne: "pre \<noteq> []" and sub: "pre = ''-'' \<or> set pre \<subseteq> set ''dalTLDpSugct?''"
    and t: "Match fmtBasicTriple t"
  shows "\<not> Match fmtImplicitInt (pre @ t)" "\<not> Match fmtExplicitInt (pre @ t)"
    "\<not> Match fmtBasicSingle (pre @ t)" "\<not> Match fmtBasicTriple (pre @ t)"
    "\<not> Match fmtSymbolicMatch (pre @ t)"
proof -
  from ne have "hd pre \<in> set pre" by simp
  with sub have "hd pre = CHR ''-'' \<or> hd pre \<in> set ''dalTLDpSugct?''" by auto
  then have hdp: "hd pre \<in> set ''-dalTLDpSugct?''" by (simp only: list.set insert_iff)
  from ne have hd: "hd (pre @ t) = hd pre" by simp
  from basicTriple_length [OF t] have len: "length t = 9" .
  with ne have long: "10 \<le> length (pre @ t)" by (cases pre) simp_all
  show "\<not> Match fmtImplicitInt (pre @ t)"
    using pattern_heads(1) [of "pre @ t"] hdp unfolding hd by auto
  show "\<not> Match fmtExplicitInt (pre @ t)"
    using pattern_heads(2) [of "pre @ t"] hdp unfolding hd by auto
  show "\<not> Match fmtBasicSingle (pre @ t)"
  proof
    assume "Match fmtBasicSingle (pre @ t)"
    then have "length (pre @ t) = 3" unfolding fmtBasicSingle_def by (rule rwxGroup_length)
    with long show False by simp
  qed
  show "\<not> Match fmtBasicTriple (pre @ t)"
  proof
    assume "Match fmtBasicTriple (pre @ t)"
    then have "length (pre @ t) = 9" by (rule basicTriple_length)
    with long show False by simp
  qed
  show "\<not> Match fmtSymbolicMatch (pre @ t)"
  proof
    assume "Match fmtSymbolicMatch (pre @ t)"
    then have "actorNearEnd (pre @ t)" by (rule symbolic_actorNearEnd)
    then obtain c where c: "c \<in> set (take 8 (rev (pre @ t)))" "c \<in> set ''augo''"
      unfolding actorNearEnd_def by blast
    from len have "take 8 (rev (pre @ t)) = take 8 (rev t)" by simp
    with c(1) have "c \<in> set (rev t)" using set_take_subset [of 8 "rev t"] by auto
    then have "c \<in> set ''rwx-''" using basicTriple_chars [OF t, of c] by simp
    with c(2) show False by auto
  qed
qed

lemma UnmarshalText_full:
  assumes "Match fmtFull b"
  shows "UnmarshalText p b = Return None (fullSpec b)"
proof -
  from assms obtain pre t where b: "b = pre @ t"
    and sub: "pre = ''-'' \<or> set pre \<subseteq> set ''dalTLDpSugct?''" and t: "Match fmtBasicTriple t"
    unfolding full_iff by blast
  show ?thesis
  proof (cases "pre = []")
    case True
    with b t have "UnmarshalText p b = Return None (permBitsSpec t)"
      using UnmarshalText_basicTriple [of t p] by (simp add: basicTripleSpec_def)
    also have "permBitsSpec t = fullSpec ([] @ t)"
      using fullValue_fullSpec [OF t, of "[]"] fullValue_Nil_permBitsSpec [OF t] by simp
    finally show ?thesis using True b by simp
  next
    case False
    note only = prefixed_full_only [OF False sub t]
    have "UnmarshalText p (pre @ t) = fromFull p (pre @ t)"
      using only assms b by (simp add: UnmarshalText_def del: Match.simps)
    also have "\<dots> = Return None (fullValue pre t)"
      using assms t unfolding b by (rule fromFull_canonical)
    finally show ?thesis unfolding b fullValue_fullSpec [OF t] .
  qed
qed

lemma clause_lang_text: "v \<in> lang symbolicClause \<Longrightarrow> \<exists>c. wfClause c \<and> clauseText c = v"
proof -
  assume "v \<in> lang symbolicClause"
  then obtain a op p w where "v = a @ op # p @ w" "actorText a" "op \<in> set ''-=+''"
      "permText p" "sepText w"
    unfolding clause_iff by blast
  then have "wfClause (a, op, p, w) \<and> clauseText (a, op, p, w) = v"
    by (simp only: wfClause.simps clauseText.simps simp_thms)
  then show ?thesis by blast
qed

lemma star_render:
  "w \<in> star (lang symbolicClause) \<Longrightarrow> \<exists>cs. list_all wfClause cs \<and> render cs = w"
proof (induction rule: star.induct)
  case star_empty
  have "list_all wfClause [] \<and> render [] = []" by (simp add: render_def)
  then show ?case by blast
next
  case (star_step u v)
  from clause_lang_text [OF star_step.hyps(1)] obtain c where c: "wfClause c" "clauseText c = u"
    by blast
  from star_step.IH obtain cs where cs: "list_all wfClause cs" "render cs = v" by blast
  from c cs have "list_all wfClause (c # cs) \<and> render (c # cs) = u @ v"
    by (simp add: render_Cons)
  then show ?case by blast
qed

lemma symbolic_is_render:
  assumes "Match fmtSymbolicMatch b"
  shows "\<exists>cs. cs \<noteq> [] \<and> list_all wfClause cs \<and> render cs = b"
proof -
  from assms obtain v w where b: "b = v @ w" and v: "v \<in> lang symbolicClause"
    and w: "w \<in> star (lang symbolicClause)"
    unfolding symbolic_iff by blast
  from clause_lang_text [OF v] obtain c where c: "wfClause c" "clauseText c = v" by blast
  from star_render [OF w] obtain cs where cs: "list_all wfClause cs" "render cs = w" by blast
  from b c cs have "c # cs \<noteq> [] \<and> list_all wfClause (c # cs) \<and> render (c # cs) = b"
    by (simp add: render_Cons)
  then show ?thesis by blast
qed

lemma UnmarshalText_symbolic_spec:
  assumes "Match fmtSymbolicMatch b"
  shows "\<exists>cs. cs \<noteq> [] \<and> list_all wfClause cs \<and> render cs = b
           \<and> UnmarshalText p b = Return None (symbolicSpec cs)"
proof -
  from symbolic_is_render [OF assms] obtain cs where
    cs: "cs \<noteq> []" "list_all wfClause cs" "render cs = b" by blast
  from UnmarshalText_render [OF cs(1,2), of p] cs show ?thesis by blast
qed

text \<open>
  Claim C3, as the code has it. The code tries implicit octal, explicit octal, basic single,
  basic triple, symbolic, full; on every input this gives the outcome of trying them in the
  stated order (implicit octal, explicit octal, symbolic, basic single, basic triple, full),
  the first match deciding. An input accepted by a grammar, and so every input accepted by
  exactly one, parses successfully to the bit pattern of that grammar's semantics: for the
  symbolic grammar the left fold of its clauses, for basic single the three characters
  broadcast to all actors, for basic triple the nine characters at their bit positions, for
  full the prefix letters' bits with the triple's. The one exception is an octal form whose
  digits denote \<open>2 ^ 32\<close> or more: below that an octal input parses to the value of its
  digits, from there on it fails with a range error. An input matching none of the six
  fails.
\<close>

theorem classification_first_match:
  "UnmarshalText p b = UnmarshalText_specOrder p b
   \<and> (Match fmtImplicitInt b \<longrightarrow>
        UnmarshalText p b =
          (if octalValue b < 2 ^ 32 then Return None (of_nat (octalValue b))
           else Return (Some (ErrImplicitOctal ErrRange)) p))
   \<and> (Match fmtExplicitInt b \<longrightarrow>
        UnmarshalText p b =
          (if octalValue (explicitDigits b) < 2 ^ 32
           then Return None (of_nat (octalValue (explicitDigits b)))
           else Return (Some (ErrOctal ErrRange)) p))
   \<and> (Match fmtSymbolicMatch b \<longrightarrow>
        (\<exists>cs. cs \<noteq> [] \<and> list_all wfClause cs \<and> render cs = b
              \<and> UnmarshalText p b = Return None (symbolicSpec cs)))
   \<and> (Match fmtBasicSingle b \<longrightarrow> UnmarshalText p b = Return None (basicSingleSpec b))
   \<and> (Match fmtBasicTriple b \<longrightarrow> UnmarshalText p b = Return None (basicTripleSpec b))
   \<and> (Match fmtFull b \<longrightarrow> UnmarshalText p b = Return None (fullSpec b))
   \<and> ((\<forall>g'. \<not> Match (pattern g') b) \<longrightarrow> UnmarshalText p b = Return (Some ErrUnrecognized) p)"
proof (intro conjI impI)
  show "UnmarshalText p b = UnmarshalText_specOrder p b"
    by (rule UnmarshalText_order_irrelevant)
  show "UnmarshalText p b =
          (if octalValue b < 2 ^ 32 then Return None (of_nat (octalValue b))
           else Return (Some (ErrImplicitOctal ErrRange)) p)" if "Match fmtImplicitInt b"
    using that by (rule implicit_outcome)
  show "UnmarshalText p b =
          (if octalValue (explicitDigits b) < 2 ^ 32
           then Return None (of_nat (octalValue (explicitDigits b)))
           else Return (Some (ErrOctal ErrRange)) p)" if "Match fmtExplicitInt b"
    using that by (rule explicit_outcome)
  show "\<exists>cs. cs \<noteq> [] \<and> list_all wfClause cs \<and> render cs = b
              \<and> UnmarshalText p b = Return None (symbolicSpec cs)" if "Match fmtSymbolicMatch b"
    using that by (rule UnmarshalText_symbolic_spec)
  show "UnmarshalText p b = Return None (basicSingleSpec b)" if "Match fmtBasicSingle b"
    using that by (rule UnmarshalText_basicSingle)
  show "UnmarshalText p b = Return None (basicTripleSpec b)" if "Match fmtBasicTriple b"
    using that by (rule UnmarshalText_basicTriple)
  show "UnmarshalText p b = Return None (fullSpec b)" if "Match fmtFull b"
    using that by (rule UnmarshalText_full)
  show "UnmarshalText p b = Return (Some ErrUnrecognized) p" if h: "\<forall>g'. \<not> Match (pattern g') b"
  proof -
    from h [THEN spec, of ImplicitOctal] h [THEN spec, of ExplicitOctal]
      h [THEN spec, of Symbolic] h [THEN spec, of BasicSingle] h [THEN spec, of BasicTriple]
      h [THEN spec, of Full]
    show ?thesis by (simp add: UnmarshalText_def del: Match.simps)
  qed
qed

theorem classification_first_match_witness:
  "Match fmtImplicitInt ''644'' \<and> UnmarshalText 0 ''644'' = Return None 420
   \<and> Match fmtExplicitInt ''0o644'' \<and> UnmarshalText 0 ''0o644'' = Return None 420
   \<and> Match fmtSymbolicMatch ''u=x g=w o=r''
   \<and> (\<exists>cs. cs \<noteq> [] \<and> list_all wfClause cs \<and> render cs = ''u=x g=w o=r''
            \<and> UnmarshalText 0 ''u=x g=w o=r'' = Return None (symbolicSpec cs))
   \<and> Match fmtBasicSingle ''r-x'' \<and> UnmarshalText 0 ''r-x'' = Return None 365
   \<and> Match fmtBasicTriple ''rwxr-x---'' \<and> Match fmtFull ''rwxr-x---''
   \<and> UnmarshalText 0 ''rwxr-x---'' = Return None 488
   \<and> Match fmtFull ''drwxr-xr-x'' \<and> UnmarshalText 0 ''drwxr-xr-x'' = Return None 2147484141
   \<and> (\<forall>g'. \<not> Match (pattern g') ''rWx'')
   \<and> UnmarshalText 7 ''rWx'' = Return (Some ErrUnrecognized) 7"
proof -
  have i: "Match fmtImplicitInt ''644''" and e: "Match fmtExplicitInt ''0o644''"
    and s: "Match fmtSymbolicMatch ''u=x g=w o=r''" and b1: "Match fmtBasicSingle ''r-x''"
    and b3: "Match fmtBasicTriple ''rwxr-x---''" and f3: "Match fmtFull ''rwxr-x---''"
    and f: "Match fmtFull ''drwxr-xr-x''"
    by (simp_all add: pattern_defs)
  have iv: "octalValue ''644'' = 420" and ev: "octalValue (explicitDigits ''0o644'') = 420"
    by (simp_all add: octalValue_def octalStep_def byte_def explicitDigits_def)
  have v1: "basicSingleSpec ''r-x'' = 365" and v3: "basicTripleSpec ''rwxr-x---'' = 488"
    by (simp_all add: basicSingleSpec_def basicTripleSpec_def permBitsSpec_def)
  have v3f: "fullSpec ''rwxr-x---'' = 488" and vf: "fullSpec ''drwxr-xr-x'' = 2147484141"
    by (simp_all add: fullSpec_def specialBitsSpec_def permBitsSpec_def modeLetters_def)
  have n: "\<forall>g'. \<not> Match (pattern g') ''rWx''"
  proof
    fix g' show "\<not> Match (pattern g') ''rWx''"
      by (cases g') (simp_all add: pattern_defs)
  qed
  from classification_first_match [of 0 "''644''"] i
  have r1: "UnmarshalText 0 ''644'' =
          (if octalValue ''644'' < 2 ^ 32 then Return None (of_nat (octalValue ''644''))
           else Return (Some (ErrImplicitOctal ErrRange)) 0)" by blast
  from classification_first_match [of 0 "''0o644''"] e
  have r2: "UnmarshalText 0 ''0o644'' =
          (if octalValue (explicitDigits ''0o644'') < 2 ^ 32
           then Return None (of_nat (octalValue (explicitDigits ''0o644'')))
           else Return (Some (ErrOctal ErrRange)) 0)" by blast
  from classification_first_match [of 0 "''u=x g=w o=r''"] s
  have r3: "\<exists>cs. cs \<noteq> [] \<and> list_all wfClause cs \<and> render cs = ''u=x g=w o=r''
            \<and> UnmarshalText 0 ''u=x g=w o=r'' = Return None (symbolicSpec cs)" by blast
  from classification_first_match [of 0 "''r-x''"] b1
  have r4: "UnmarshalText 0 ''r-x'' = Return None (basicSingleSpec ''r-x'')" by blast
  from classification_first_match [of 0 "''rwxr-x---''"] b3 f3
  have r5: "UnmarshalText 0 ''rwxr-x---'' = Return None (basicTripleSpec ''rwxr-x---'')"
    and r5f: "UnmarshalText 0 ''rwxr-x---'' = Return None (fullSpec ''rwxr-x---'')" by blast+
  from classification_first_match [of 0 "''drwxr-xr-x''"] f
  have r6: "UnmarshalText 0 ''drwxr-xr-x'' = Return None (fullSpec ''drwxr-xr-x'')" by blast
  from classification_first_match [of 7 "''rWx''"] n
  have r7: "UnmarshalText 7 ''rWx'' = Return (Some ErrUnrecognized) 7" by blast
  from r1 iv have r1': "UnmarshalText 0 ''644'' = Return None 420" by simp
  from r2 ev have r2': "UnmarshalText 0 ''0o644'' = Return None 420" by simp
  from r4 v1 have r4': "UnmarshalText 0 ''r-x'' = Return None 365" by simp
  from r5 v3 have r5': "UnmarshalText 0 ''rwxr-x---'' = Return None 488" by simp
  from r6 vf have r6': "UnmarshalText 0 ''drwxr-xr-x'' = Return None 2147484141" by simp
  from i r1' e r2' s r3 b1 r4' b3 f3 r5' f r6' n r7 show ?thesis by blast
qed

text \<open>
  Claim C3 as stated fails on an octal overflow: \<^verbatim>\<open>47777777777\<close> is accepted by the implicit
  octal grammar and by no other, and it does not parse.
\<close>

theorem sole_grammar_input_fails_to_parse:
  "Match fmtImplicitInt ''47777777777'' \<and> \<not> Match fmtExplicitInt ''47777777777''
   \<and> \<not> Match fmtSymbolicMatch ''47777777777'' \<and> \<not> Match fmtBasicSingle ''47777777777''
   \<and> \<not> Match fmtBasicTriple ''47777777777'' \<and> \<not> Match fmtFull ''47777777777''
   \<and> onlyGrammar ImplicitOctal ''47777777777''
   \<and> UnmarshalText 0 ''47777777777'' = Return (Some (ErrImplicitOctal ErrRange)) 0"
  by (simp add: onlyGrammar_def specOrder_def UnmarshalText_def pattern_defs fromImplicit_def
      parse_defs)

end
